theory Spec2Isabelle
  imports Main "HOL-Library.Monad_Syntax"
begin

section \<open>Set operations on sorted streams: the model of operations.go\<close>

text \<open>
  The element type \<open>T constraints.Ordered\<close> is a type of class \<open>linorder\<close>; its Go zero
  value (\<open>var empty T\<close>) is the \<open>0\<close> of class \<open>zero\<close>.

  Streams are Go objects mutated in place by \<open>Next\<close>. The model passes the state of the
  receiver explicitly: a method takes the state and returns the new one together with
  its results. A call that never returns normally (a receive that blocks forever, a send
  on a closed channel) is the value \<open>None\<close>.
\<close>

subsection \<open>The interface and the two callback types\<close>

text \<open>
  \<open>SortedNumbersStream[T]\<close> has the single method \<open>Next() (item T, ok bool)\<close>. A value of
  the interface is a method together with the state \<open>'s\<close> of its receiver.
\<close>

type_synonym ('a, 's) SortedNumbersStream = "'s \<Rightarrow> ('a \<times> bool \<times> 's) option"

text \<open>
  \<open>type operation[T] func(a, b *T)\<close>: a pointer argument is \<open>None\<close> when nil. The Go
  closures write to the result stream they capture; here that stream \<open>'r\<close> is threaded
  through the call.
\<close>

type_synonym ('a, 'r) operation = "'a option \<Rightarrow> 'a option \<Rightarrow> 'r \<Rightarrow> 'r option"

type_synonym shouldStop = "bool \<Rightarrow> bool \<Rightarrow> bool"

subsection \<open>Go channels\<close>

text \<open>
  A channel is the queue of values sent and not yet received, and the closed flag. The
  channels of this program are unbuffered and each has one producer goroutine and one
  consumer; the model runs the producer first and lets \<open>buf\<close> hold the values it hands
  over, in order. Receiving from a closed, empty channel yields the zero value and
  \<open>false\<close>; receiving from an open, empty channel whose producer is gone blocks forever;
  sending on or closing a closed channel panics.
\<close>

record 'a chan =
  buf :: "'a list"
  closed :: bool

definition make_chan :: "'a chan" where
  "make_chan = \<lparr>buf = [], closed = False\<rparr>"

definition chan_recv :: "'a::zero chan \<Rightarrow> ('a \<times> bool \<times> 'a chan) option" where
  "chan_recv c =
     (case buf c of
        x # xs \<Rightarrow> Some (x, True, c\<lparr>buf := xs\<rparr>)
      | [] \<Rightarrow> if closed c then Some (0, False, c) else None)"

definition chan_send :: "'a chan \<Rightarrow> 'a \<Rightarrow> 'a chan option" where
  "chan_send c x = (if closed c then None else Some (c\<lparr>buf := buf c @ [x]\<rparr>))"

definition chan_close :: "'a chan \<Rightarrow> 'a chan option" where
  "chan_close c = (if closed c then None else Some (c\<lparr>closed := True\<rparr>))"

subsection \<open>ChannelStream\<close>

record 'a ChannelStream =
  pipe :: "'a chan"

definition ChannelStream_Next :: "('a::zero, 'a ChannelStream) SortedNumbersStream" where
  "ChannelStream_Next s =
     (case chan_recv (pipe s) of
        None \<Rightarrow> None
      | Some (item, ok, c) \<Rightarrow> Some (item, ok, s\<lparr>pipe := c\<rparr>))"

definition ChannelStream_Push :: "'a ChannelStream \<Rightarrow> 'a \<Rightarrow> 'a ChannelStream option" where
  "ChannelStream_Push s item =
     (case chan_send (pipe s) item of None \<Rightarrow> None | Some c \<Rightarrow> Some (s\<lparr>pipe := c\<rparr>))"

definition ChannelStream_Close :: "'a ChannelStream \<Rightarrow> 'a ChannelStream option" where
  "ChannelStream_Close s =
     (case chan_close (pipe s) of None \<Rightarrow> None | Some c \<Rightarrow> Some (s\<lparr>pipe := c\<rparr>))"

definition NewChannelStream :: "'a ChannelStream" where
  "NewChannelStream = \<lparr>pipe = make_chan\<rparr>"

subsection \<open>SliceStream\<close>

text \<open>
  \<open>pos\<close> is a Go \<open>int\<close> that starts at 0 and is only ever incremented or reset to 0, so
  it is a natural number here.
\<close>

record 'a SliceStream =
  slice :: "'a list"
  pos :: nat

definition SliceStream_Reset :: "'a SliceStream \<Rightarrow> 'a SliceStream" where
  "SliceStream_Reset s = s\<lparr>pos := 0\<rparr>"

definition SliceStream_Next :: "('a::zero, 'a SliceStream) SortedNumbersStream" where
  "SliceStream_Next s =
     (if pos s < length (slice s)
      then Some (slice s ! pos s, True, s\<lparr>pos := pos s + 1\<rparr>)
      else Some (0, False, s))"

definition NewSliceStream :: "'a list \<Rightarrow> 'a SliceStream" where
  "NewSliceStream sl = \<lparr>slice = sl, pos = 0\<rparr>"

subsection \<open>iterate\<close>

text \<open>
  The inner loop of lines 152-161: stream1 is exhausted, everything of stream2 goes to
  \<open>op\<close> as right-only. The loop reads \<open>empty2\<close> and never writes it.
\<close>

partial_function (option) iterate_drain2 ::
  "('a, 's2) SortedNumbersStream \<Rightarrow> ('a, 'r) operation \<Rightarrow> 'a \<Rightarrow> bool \<Rightarrow> 's2 \<Rightarrow> 'r
     \<Rightarrow> ('s2 \<times> 'r) option" where
  "iterate_drain2 Next2 op i2 empty2 stream2 res =
     do {
       res1 \<leftarrow> (if \<not> empty2 then op None (Some i2) res else Some res);
       rd \<leftarrow> Next2 stream2;
       case rd of (i2', readOk, stream2') \<Rightarrow>
         if \<not> readOk then Some (stream2', res1)
         else do {
           res2 \<leftarrow> op None (Some i2') res1;
           iterate_drain2 Next2 op i2' empty2 stream2' res2
         }
     }"

declare iterate_drain2.simps [code]

text \<open>
  The inner loop of lines 172-182: stream2 is exhausted, everything of stream1 goes to
  \<open>op\<close> as left-only. This loop sets \<open>empty1\<close> once the buffered head is delivered.
\<close>

partial_function (option) iterate_drain1 ::
  "('a, 's1) SortedNumbersStream \<Rightarrow> ('a, 'r) operation \<Rightarrow> 'a \<Rightarrow> bool \<Rightarrow> 's1 \<Rightarrow> 'r
     \<Rightarrow> ('s1 \<times> 'r) option" where
  "iterate_drain1 Next1 op i1 empty1 stream1 res =
     do {
       res1 \<leftarrow> (if \<not> empty1 then op (Some i1) None res else Some res);
       rd \<leftarrow> Next1 stream1;
       case rd of (i1', readOk, stream1') \<Rightarrow>
         if \<not> readOk then Some (stream1', res1)
         else do {
           res2 \<leftarrow> op (Some i1') None res1;
           iterate_drain1 Next1 op i1' True stream1' res2
         }
     }"

declare iterate_drain1.simps [code]

text \<open>
  Lines 146-164 and 166-185: fill the empty head buffer of one side. The result is
  \<open>Inl\<close> when \<open>iterate\<close> returns from inside the block (with the final state of both
  streams and of the result), and \<open>Inr\<close> with the head, its flag and the stream when
  the loop body goes on.
\<close>

definition iterate_fill1 ::
  "('a, 's1) SortedNumbersStream \<Rightarrow> ('a, 's2) SortedNumbersStream \<Rightarrow> ('a, 'r) operation
     \<Rightarrow> shouldStop \<Rightarrow> 'a \<Rightarrow> 'a \<Rightarrow> bool \<Rightarrow> bool \<Rightarrow> 's1 \<Rightarrow> 's2 \<Rightarrow> 'r
     \<Rightarrow> (('s1 \<times> 's2 \<times> 'r) + ('a \<times> bool \<times> 's1)) option" where
  "iterate_fill1 Next1 Next2 op stop i1 i2 empty1 empty2 stream1 stream2 res =
     (if empty1 then
        do {
          rd \<leftarrow> Next1 stream1;
          case rd of (i1', readOk, stream1') \<Rightarrow>
            if \<not> readOk then
              (if stop True False then Some (Inl (stream1', stream2, res))
               else do {
                 dr \<leftarrow> iterate_drain2 Next2 op i2 empty2 stream2 res;
                 case dr of (stream2', res') \<Rightarrow> Some (Inl (stream1', stream2', res'))
               })
            else Some (Inr (i1', False, stream1'))
        }
      else Some (Inr (i1, empty1, stream1)))"

definition iterate_fill2 ::
  "('a, 's1) SortedNumbersStream \<Rightarrow> ('a, 's2) SortedNumbersStream \<Rightarrow> ('a, 'r) operation
     \<Rightarrow> shouldStop \<Rightarrow> 'a \<Rightarrow> 'a \<Rightarrow> bool \<Rightarrow> bool \<Rightarrow> 's1 \<Rightarrow> 's2 \<Rightarrow> 'r
     \<Rightarrow> (('s1 \<times> 's2 \<times> 'r) + ('a \<times> bool \<times> 's2)) option" where
  "iterate_fill2 Next1 Next2 op stop i1 i2 empty1 empty2 stream1 stream2 res =
     (if empty2 then
        do {
          rd \<leftarrow> Next2 stream2;
          case rd of (i2', readOk, stream2') \<Rightarrow>
            if \<not> readOk then
              (if stop False True then Some (Inl (stream1, stream2', res))
               else do {
                 dr \<leftarrow> iterate_drain1 Next1 op i1 empty1 stream1 res;
                 case dr of (stream1', res') \<Rightarrow> Some (Inl (stream1', stream2', res'))
               })
            else Some (Inr (i2', False, stream2'))
        }
      else Some (Inr (i2, empty2, stream2)))"

text \<open>
  One trip round the outer loop, lines 146-203: \<open>Inl\<close> when \<open>iterate\<close> returns during the
  trip, \<open>Inr\<close> with the variables as they stand at the end of the trip otherwise. When
  none of the five comparisons of lines 188-203 holds, nothing changes.
\<close>

definition iterate_body ::
  "('a::linorder, 's1) SortedNumbersStream \<Rightarrow> ('a, 's2) SortedNumbersStream
     \<Rightarrow> ('a, 'r) operation \<Rightarrow> shouldStop \<Rightarrow> bool
     \<Rightarrow> 'a \<times> 'a \<times> bool \<times> bool \<times> 's1 \<times> 's2 \<times> 'r
     \<Rightarrow> (('s1 \<times> 's2 \<times> 'r) + ('a \<times> 'a \<times> bool \<times> bool \<times> 's1 \<times> 's2 \<times> 'r)) option" where
  "iterate_body Next1 Next2 op stop asc vars =
     (case vars of (i1, i2, empty1, empty2, stream1, stream2, res) \<Rightarrow>
     do {
       f1 \<leftarrow> iterate_fill1 Next1 Next2 op stop i1 i2 empty1 empty2 stream1 stream2 res;
       case f1 of
         Inl fin \<Rightarrow> Some (Inl fin)
       | Inr (i1, empty1, stream1) \<Rightarrow>
           do {
             f2 \<leftarrow> iterate_fill2 Next1 Next2 op stop i1 i2 empty1 empty2 stream1 stream2 res;
             case f2 of
               Inl fin \<Rightarrow> Some (Inl fin)
             | Inr (i2, empty2, stream2) \<Rightarrow>
                 if i1 = i2 then
                   do {
                     res' \<leftarrow> op (Some i1) (Some i2) res;
                     Some (Inr (i1, i2, True, True, stream1, stream2, res'))
                   }
                 else if asc \<and> i1 < i2 then
                   do {
                     res' \<leftarrow> op (Some i1) None res;
                     Some (Inr (i1, i2, True, empty2, stream1, stream2, res'))
                   }
                 else if asc \<and> i1 > i2 then
                   do {
                     res' \<leftarrow> op None (Some i2) res;
                     Some (Inr (i1, i2, empty1, True, stream1, stream2, res'))
                   }
                 else if \<not> asc \<and> i1 < i2 then
                   do {
                     res' \<leftarrow> op None (Some i2) res;
                     Some (Inr (i1, i2, empty1, True, stream1, stream2, res'))
                   }
                 else if \<not> asc \<and> i1 > i2 then
                   do {
                     res' \<leftarrow> op (Some i1) None res;
                     Some (Inr (i1, i2, True, empty2, stream1, stream2, res'))
                   }
                 else Some (Inr (i1, i2, empty1, empty2, stream1, stream2, res))
           }
     })"

text \<open>The outer \<open>for\<close> loop of lines 145-204.\<close>

partial_function (option) iterate_loop ::
  "('a::linorder, 's1) SortedNumbersStream \<Rightarrow> ('a, 's2) SortedNumbersStream
     \<Rightarrow> ('a, 'r) operation \<Rightarrow> shouldStop \<Rightarrow> bool
     \<Rightarrow> 'a \<times> 'a \<times> bool \<times> bool \<times> 's1 \<times> 's2 \<times> 'r \<Rightarrow> ('s1 \<times> 's2 \<times> 'r) option" where
  "iterate_loop Next1 Next2 op stop asc vars =
     do {
       b \<leftarrow> iterate_body Next1 Next2 op stop asc vars;
       case b of
         Inl fin \<Rightarrow> Some fin
       | Inr vars' \<Rightarrow> iterate_loop Next1 Next2 op stop asc vars'
     }"

declare iterate_loop.simps [code]

text \<open>
  \<open>iterate\<close> itself: \<open>i1\<close>, \<open>i2\<close> start as zero values, both heads start empty. It returns
  the final states of the two input streams and of what \<open>op\<close> writes to.
\<close>

definition iterate ::
  "('a::{linorder,zero}, 's1) SortedNumbersStream \<Rightarrow> ('a, 's2) SortedNumbersStream
     \<Rightarrow> ('a, 'r) operation \<Rightarrow> shouldStop \<Rightarrow> bool \<Rightarrow> 's1 \<Rightarrow> 's2 \<Rightarrow> 'r
     \<Rightarrow> ('s1 \<times> 's2 \<times> 'r) option" where
  "iterate Next1 Next2 op stop asc stream1 stream2 res =
     iterate_loop Next1 Next2 op stop asc (0, 0, True, True, stream1, stream2, res)"

subsection \<open>Union, Intersect, Diff\<close>

text \<open>
  Each operation makes a result stream, runs \<open>iterate\<close> in a goroutine and closes the
  result when \<open>iterate\<close> returns. The model runs that goroutine to its end: the value is
  the closed result stream holding everything pushed, with the states in which the two
  inputs are left.
\<close>

definition Union_unionOperation :: "('a, 'a ChannelStream) operation" where
  "Union_unionOperation a b result =
     (if a \<noteq> None \<and> b \<noteq> None then ChannelStream_Push result (the a)
      else if a \<noteq> None then ChannelStream_Push result (the a)
      else if b \<noteq> None then ChannelStream_Push result (the b)
      else Some result)"

definition Union_shouldStopDecision :: shouldStop where
  "Union_shouldStopDecision aClosed bClosed = False"

definition Union ::
  "('a::{linorder,zero}, 's1) SortedNumbersStream \<Rightarrow> ('a, 's2) SortedNumbersStream
     \<Rightarrow> 's1 \<Rightarrow> 's2 \<Rightarrow> bool \<Rightarrow> ('a ChannelStream \<times> 's1 \<times> 's2) option" where
  "Union Next1 Next2 stream1 stream2 asc =
     do {
       it \<leftarrow> iterate Next1 Next2 Union_unionOperation Union_shouldStopDecision asc
               stream1 stream2 NewChannelStream;
       case it of (stream1', stream2', result) \<Rightarrow>
         do {
           result' \<leftarrow> ChannelStream_Close result;
           Some (result', stream1', stream2')
         }
     }"

definition Intersect_unionOperation :: "('a, 'a ChannelStream) operation" where
  "Intersect_unionOperation a b result =
     (if a \<noteq> None \<and> b \<noteq> None then ChannelStream_Push result (the a)
      else Some result)"

definition Intersect_shouldStopDecision :: shouldStop where
  "Intersect_shouldStopDecision aClosed bClosed = (aClosed \<or> bClosed)"

definition Intersect ::
  "('a::{linorder,zero}, 's1) SortedNumbersStream \<Rightarrow> ('a, 's2) SortedNumbersStream
     \<Rightarrow> 's1 \<Rightarrow> 's2 \<Rightarrow> bool \<Rightarrow> ('a ChannelStream \<times> 's1 \<times> 's2) option" where
  "Intersect Next1 Next2 stream1 stream2 asc =
     do {
       it \<leftarrow> iterate Next1 Next2 Intersect_unionOperation Intersect_shouldStopDecision asc
               stream1 stream2 NewChannelStream;
       case it of (stream1', stream2', result) \<Rightarrow>
         do {
           result' \<leftarrow> ChannelStream_Close result;
           Some (result', stream1', stream2')
         }
     }"

definition Diff_unionOperation :: "('a, 'a ChannelStream) operation" where
  "Diff_unionOperation a b result =
     (if a \<noteq> None \<and> b = None then ChannelStream_Push result (the a)
      else Some result)"

definition Diff_shouldStopDecision :: shouldStop where
  "Diff_shouldStopDecision aClosed bClosed = aClosed"

definition Diff ::
  "('a::{linorder,zero}, 's1) SortedNumbersStream \<Rightarrow> ('a, 's2) SortedNumbersStream
     \<Rightarrow> 's1 \<Rightarrow> 's2 \<Rightarrow> bool \<Rightarrow> ('a ChannelStream \<times> 's1 \<times> 's2) option" where
  "Diff Next1 Next2 stream1 stream2 asc =
     do {
       it \<leftarrow> iterate Next1 Next2 Diff_unionOperation Diff_shouldStopDecision asc
               stream1 stream2 NewChannelStream;
       case it of (stream1', stream2', result) \<Rightarrow>
         do {
           result' \<leftarrow> ChannelStream_Close result;
           Some (result', stream1', stream2')
         }
     }"

subsection \<open>ToSlice\<close>

partial_function (option) ToSlice_loop ::
  "('a, 's) SortedNumbersStream \<Rightarrow> 's \<Rightarrow> 'a list \<Rightarrow> ('a list \<times> 's) option" where
  "ToSlice_loop Next stream ret =
     do {
       rd \<leftarrow> Next stream;
       case rd of (i, ok, stream') \<Rightarrow>
         if \<not> ok then Some (ret, stream')
         else ToSlice_loop Next stream' (ret @ [i])
     }"

declare ToSlice_loop.simps [code]

text \<open>\<open>ToSlice\<close> returns the slice and the state in which it leaves the stream.\<close>

definition ToSlice :: "('a, 's) SortedNumbersStream \<Rightarrow> 's \<Rightarrow> ('a list \<times> 's) option" where
  "ToSlice Next stream = ToSlice_loop Next stream []"

subsection \<open>What a caller observes\<close>

text \<open>
  \<open>ToSlice(Op(a, b, asc))\<close>, the expression the tests compare with the expected slice.
\<close>

definition ToSlice_result :: "('a::zero ChannelStream \<times> 's1 \<times> 's2) option \<Rightarrow> 'a list option" where
  "ToSlice_result r =
     (case r of
        None \<Rightarrow> None
      | Some (result, stream1, stream2) \<Rightarrow>
          (case ToSlice ChannelStream_Next result of
             None \<Rightarrow> None
           | Some (ret, result') \<Rightarrow> Some ret))"

text \<open>
  The three observations of \<open>TestEarlyFinish\<close> on slice inputs: the materialized result,
  then \<open>ToSlice(tt.a)\<close> and \<open>ToSlice(tt.b)\<close>, what is left to read on each input.
\<close>

definition TestEarlyFinish_observe ::
  "('a::zero ChannelStream \<times> 'a SliceStream \<times> 'a SliceStream) option
     \<Rightarrow> ('a list \<times> 'a list \<times> 'a list) option" where
  "TestEarlyFinish_observe r =
     (case r of
        None \<Rightarrow> None
      | Some (result, a, b) \<Rightarrow>
          (case ToSlice ChannelStream_Next result of
             None \<Rightarrow> None
           | Some (ret, result') \<Rightarrow>
               (case ToSlice SliceStream_Next a of
                  None \<Rightarrow> None
                | Some (remainingA, a') \<Rightarrow>
                    (case ToSlice SliceStream_Next b of
                       None \<Rightarrow> None
                     | Some (remainingB, b') \<Rightarrow> Some (ret, remainingA, remainingB)))))"

text \<open>
  A combine callback that only records how it is called: the list of the argument pairs
  of all invocations, oldest first.
\<close>

definition record_call :: "('a, ('a option \<times> 'a option) list) operation" where
  "record_call a b calls = Some (calls @ [(a, b)])"

text \<open>The state of a stream after \<open>n\<close> calls of \<open>Next\<close>, whatever they returned.\<close>

primrec Next_times :: "('a, 's) SortedNumbersStream \<Rightarrow> nat \<Rightarrow> 's \<Rightarrow> 's option" where
  "Next_times Next 0 s = Some s"
| "Next_times Next (Suc n) s =
     (case Next s of None \<Rightarrow> None | Some (item, ok, s') \<Rightarrow> Next_times Next n s')"

subsection \<open>iterate with its callback invocations on record\<close>

text \<open>
  A run of \<open>iterate\<close> that never returns (an endless stream, a \<open>Next\<close> that blocks, a
  callback that panics or blocks) has the value \<open>None\<close> above, and \<open>None\<close> does not say
  which callback invocations were made before. The definitions of this subsection are the
  same code once more, line for line, with two additions: every call site of \<open>op\<close> first
  appends the pair of its arguments to a list, and every loop takes the number \<open>n\<close> of
  trips it may still make. The value is \<open>Returned\<close> with what \<open>iterate\<close> returns, or
  \<open>Unfinished\<close> when the run has not returned: the trips are used up, or a call of \<open>Next\<close>
  or of the callback does not return. Both carry the invocations made so far, oldest
  first, the one that does not return included.
\<close>

datatype ('x, 'a) outcome =
    Returned 'x "('a option \<times> 'a option) list"
  | Unfinished "('a option \<times> 'a option) list"

primrec calls_of :: "('x, 'a) outcome \<Rightarrow> ('a option \<times> 'a option) list" where
  "calls_of (Returned x calls) = calls"
| "calls_of (Unfinished calls) = calls"

text \<open>Sequencing: an unfinished step ends the run, with its invocations.\<close>

definition outcome_bind ::
  "('x, 'a) outcome \<Rightarrow> ('x \<Rightarrow> ('a option \<times> 'a option) list \<Rightarrow> ('y, 'a) outcome) \<Rightarrow> ('y, 'a) outcome" where
  "outcome_bind m f = (case m of Unfinished calls \<Rightarrow> Unfinished calls | Returned x calls \<Rightarrow> f x calls)"

text \<open>
  A call site \<open>op(a, b)\<close>: the invocation is on record whether or not the callback
  returns.
\<close>

definition invoke ::
  "('a, 'r) operation \<Rightarrow> 'a option \<Rightarrow> 'a option \<Rightarrow> 'r \<Rightarrow> ('a option \<times> 'a option) list
     \<Rightarrow> ('r, 'a) outcome" where
  "invoke op a b res calls =
     (case op a b res of
        None \<Rightarrow> Unfinished (calls @ [(a, b)])
      | Some res' \<Rightarrow> Returned res' (calls @ [(a, b)]))"

text \<open>A call \<open>stream.Next()\<close>.\<close>

definition pull ::
  "('a, 's) SortedNumbersStream \<Rightarrow> 's \<Rightarrow> ('a option \<times> 'a option) list
     \<Rightarrow> ('a \<times> bool \<times> 's, 'a) outcome" where
  "pull Next stream calls =
     (case Next stream of None \<Rightarrow> Unfinished calls | Some rd \<Rightarrow> Returned rd calls)"

text \<open>Lines 152-161, at most \<open>n\<close> trips.\<close>

primrec traced_drain2 ::
  "nat \<Rightarrow> ('a, 's2) SortedNumbersStream \<Rightarrow> ('a, 'r) operation \<Rightarrow> 'a \<Rightarrow> bool \<Rightarrow> 's2 \<Rightarrow> 'r
     \<Rightarrow> ('a option \<times> 'a option) list \<Rightarrow> ('s2 \<times> 'r, 'a) outcome" where
  "traced_drain2 0 Next2 op i2 empty2 stream2 res calls = Unfinished calls"
| "traced_drain2 (Suc n) Next2 op i2 empty2 stream2 res calls =
     outcome_bind (if \<not> empty2 then invoke op None (Some i2) res calls else Returned res calls)
       (\<lambda>res1 calls1.
     outcome_bind (pull Next2 stream2 calls1)
       (\<lambda>rd calls2.
          case rd of (i2', readOk, stream2') \<Rightarrow>
            if \<not> readOk then Returned (stream2', res1) calls2
            else outcome_bind (invoke op None (Some i2') res1 calls2)
                   (\<lambda>res2 calls3. traced_drain2 n Next2 op i2' empty2 stream2' res2 calls3)))"

text \<open>Lines 172-182, at most \<open>n\<close> trips.\<close>

primrec traced_drain1 ::
  "nat \<Rightarrow> ('a, 's1) SortedNumbersStream \<Rightarrow> ('a, 'r) operation \<Rightarrow> 'a \<Rightarrow> bool \<Rightarrow> 's1 \<Rightarrow> 'r
     \<Rightarrow> ('a option \<times> 'a option) list \<Rightarrow> ('s1 \<times> 'r, 'a) outcome" where
  "traced_drain1 0 Next1 op i1 empty1 stream1 res calls = Unfinished calls"
| "traced_drain1 (Suc n) Next1 op i1 empty1 stream1 res calls =
     outcome_bind (if \<not> empty1 then invoke op (Some i1) None res calls else Returned res calls)
       (\<lambda>res1 calls1.
     outcome_bind (pull Next1 stream1 calls1)
       (\<lambda>rd calls2.
          case rd of (i1', readOk, stream1') \<Rightarrow>
            if \<not> readOk then Returned (stream1', res1) calls2
            else outcome_bind (invoke op (Some i1') None res1 calls2)
                   (\<lambda>res2 calls3. traced_drain1 n Next1 op i1' True stream1' res2 calls3)))"

text \<open>Lines 146-164 and 166-185; \<open>n\<close> bounds the drain loop inside.\<close>

definition traced_fill1 ::
  "nat \<Rightarrow> ('a, 's1) SortedNumbersStream \<Rightarrow> ('a, 's2) SortedNumbersStream \<Rightarrow> ('a, 'r) operation
     \<Rightarrow> shouldStop \<Rightarrow> 'a \<Rightarrow> 'a \<Rightarrow> bool \<Rightarrow> bool \<Rightarrow> 's1 \<Rightarrow> 's2 \<Rightarrow> 'r
     \<Rightarrow> ('a option \<times> 'a option) list
     \<Rightarrow> (('s1 \<times> 's2 \<times> 'r) + ('a \<times> bool \<times> 's1), 'a) outcome" where
  "traced_fill1 n Next1 Next2 op stop i1 i2 empty1 empty2 stream1 stream2 res calls =
     (if empty1 then
        outcome_bind (pull Next1 stream1 calls)
          (\<lambda>rd calls1.
             case rd of (i1', readOk, stream1') \<Rightarrow>
               if \<not> readOk then
                 (if stop True False then Returned (Inl (stream1', stream2, res)) calls1
                  else outcome_bind (traced_drain2 n Next2 op i2 empty2 stream2 res calls1)
                         (\<lambda>dr calls2.
                            case dr of (stream2', res') \<Rightarrow>
                              Returned (Inl (stream1', stream2', res')) calls2))
               else Returned (Inr (i1', False, stream1')) calls1)
      else Returned (Inr (i1, empty1, stream1)) calls)"

definition traced_fill2 ::
  "nat \<Rightarrow> ('a, 's1) SortedNumbersStream \<Rightarrow> ('a, 's2) SortedNumbersStream \<Rightarrow> ('a, 'r) operation
     \<Rightarrow> shouldStop \<Rightarrow> 'a \<Rightarrow> 'a \<Rightarrow> bool \<Rightarrow> bool \<Rightarrow> 's1 \<Rightarrow> 's2 \<Rightarrow> 'r
     \<Rightarrow> ('a option \<times> 'a option) list
     \<Rightarrow> (('s1 \<times> 's2 \<times> 'r) + ('a \<times> bool \<times> 's2), 'a) outcome" where
  "traced_fill2 n Next1 Next2 op stop i1 i2 empty1 empty2 stream1 stream2 res calls =
     (if empty2 then
        outcome_bind (pull Next2 stream2 calls)
          (\<lambda>rd calls1.
             case rd of (i2', readOk, stream2') \<Rightarrow>
               if \<not> readOk then
                 (if stop False True then Returned (Inl (stream1, stream2', res)) calls1
                  else outcome_bind (traced_drain1 n Next1 op i1 empty1 stream1 res calls1)
                         (\<lambda>dr calls2.
                            case dr of (stream1', res') \<Rightarrow>
                              Returned (Inl (stream1', stream2', res')) calls2))
               else Returned (Inr (i2', False, stream2')) calls1)
      else Returned (Inr (i2, empty2, stream2)) calls)"

text \<open>One trip round the outer loop, lines 146-203.\<close>

definition traced_body ::
  "nat \<Rightarrow> ('a::linorder, 's1) SortedNumbersStream \<Rightarrow> ('a, 's2) SortedNumbersStream
     \<Rightarrow> ('a, 'r) operation \<Rightarrow> shouldStop \<Rightarrow> bool
     \<Rightarrow> 'a \<times> 'a \<times> bool \<times> bool \<times> 's1 \<times> 's2 \<times> 'r
     \<Rightarrow> ('a option \<times> 'a option) list
     \<Rightarrow> (('s1 \<times> 's2 \<times> 'r) + ('a \<times> 'a \<times> bool \<times> bool \<times> 's1 \<times> 's2 \<times> 'r), 'a) outcome" where
  "traced_body n Next1 Next2 op stop asc vars calls =
     (case vars of (i1, i2, empty1, empty2, stream1, stream2, res) \<Rightarrow>
     outcome_bind
       (traced_fill1 n Next1 Next2 op stop i1 i2 empty1 empty2 stream1 stream2 res calls)
       (\<lambda>f1 calls1.
          case f1 of
            Inl fin \<Rightarrow> Returned (Inl fin) calls1
          | Inr (i1, empty1, stream1) \<Rightarrow>
              outcome_bind
                (traced_fill2 n Next1 Next2 op stop i1 i2 empty1 empty2 stream1 stream2 res calls1)
                (\<lambda>f2 calls2.
                   case f2 of
                     Inl fin \<Rightarrow> Returned (Inl fin) calls2
                   | Inr (i2, empty2, stream2) \<Rightarrow>
                       if i1 = i2 then
                         outcome_bind (invoke op (Some i1) (Some i2) res calls2)
                           (\<lambda>res' calls3.
                              Returned (Inr (i1, i2, True, True, stream1, stream2, res')) calls3)
                       else if asc \<and> i1 < i2 then
                         outcome_bind (invoke op (Some i1) None res calls2)
                           (\<lambda>res' calls3.
                              Returned (Inr (i1, i2, True, empty2, stream1, stream2, res')) calls3)
                       else if asc \<and> i1 > i2 then
                         outcome_bind (invoke op None (Some i2) res calls2)
                           (\<lambda>res' calls3.
                              Returned (Inr (i1, i2, empty1, True, stream1, stream2, res')) calls3)
                       else if \<not> asc \<and> i1 < i2 then
                         outcome_bind (invoke op None (Some i2) res calls2)
                           (\<lambda>res' calls3.
                              Returned (Inr (i1, i2, empty1, True, stream1, stream2, res')) calls3)
                       else if \<not> asc \<and> i1 > i2 then
                         outcome_bind (invoke op (Some i1) None res calls2)
                           (\<lambda>res' calls3.
                              Returned (Inr (i1, i2, True, empty2, stream1, stream2, res')) calls3)
                       else Returned (Inr (i1, i2, empty1, empty2, stream1, stream2, res)) calls2)))"

text \<open>The outer loop, at most \<open>n\<close> trips.\<close>

primrec traced_loop ::
  "nat \<Rightarrow> ('a::linorder, 's1) SortedNumbersStream \<Rightarrow> ('a, 's2) SortedNumbersStream
     \<Rightarrow> ('a, 'r) operation \<Rightarrow> shouldStop \<Rightarrow> bool
     \<Rightarrow> 'a \<times> 'a \<times> bool \<times> bool \<times> 's1 \<times> 's2 \<times> 'r
     \<Rightarrow> ('a option \<times> 'a option) list \<Rightarrow> ('s1 \<times> 's2 \<times> 'r, 'a) outcome" where
  "traced_loop 0 Next1 Next2 op stop asc vars calls = Unfinished calls"
| "traced_loop (Suc n) Next1 Next2 op stop asc vars calls =
     outcome_bind (traced_body (Suc n) Next1 Next2 op stop asc vars calls)
       (\<lambda>b calls'.
          case b of
            Inl fin \<Rightarrow> Returned fin calls'
          | Inr vars' \<Rightarrow> traced_loop n Next1 Next2 op stop asc vars' calls')"

text \<open>\<open>iterate\<close> with no invocation made yet.\<close>

definition traced_iterate ::
  "nat \<Rightarrow> ('a::{linorder,zero}, 's1) SortedNumbersStream \<Rightarrow> ('a, 's2) SortedNumbersStream
     \<Rightarrow> ('a, 'r) operation \<Rightarrow> shouldStop \<Rightarrow> bool \<Rightarrow> 's1 \<Rightarrow> 's2 \<Rightarrow> 'r
     \<Rightarrow> ('s1 \<times> 's2 \<times> 'r, 'a) outcome" where
  "traced_iterate n Next1 Next2 op stop asc stream1 stream2 res =
     traced_loop n Next1 Next2 op stop asc (0, 0, True, True, stream1, stream2, res) []"

subsection \<open>The pipeline of TestComposition and its eager counterpart\<close>

text \<open>
  \<open>ToSlice(Diff(Intersect(a, b, true), c, true))\<close> on three slices: the result stream of
  Intersect is the left input of Diff.
\<close>

definition TestComposition_result :: "'a::{linorder,zero} list \<Rightarrow> 'a list \<Rightarrow> 'a list \<Rightarrow> 'a list option" where
  "TestComposition_result a b c =
     (case Intersect SliceStream_Next SliceStream_Next (NewSliceStream a) (NewSliceStream b) True of
        None \<Rightarrow> None
      | Some (ab, a', b') \<Rightarrow>
          ToSlice_result (Diff ChannelStream_Next SliceStream_Next ab (NewSliceStream c) True))"

text \<open>
  The operations applied eagerly on materialized sets, in the words of the specification:
  each takes whole sequences, forms the set and returns it sorted ascending.
\<close>

definition eager_intersect :: "'a::linorder list \<Rightarrow> 'a list \<Rightarrow> 'a list" where
  "eager_intersect A B = sorted_list_of_set (set A \<inter> set B)"

definition eager_diff :: "'a::linorder list \<Rightarrow> 'a list \<Rightarrow> 'a list" where
  "eager_diff A B = sorted_list_of_set (set A - set B)"

subsection \<open>Notions used in the proofs\<close>

text \<open>
  \<open>delivers Next s xs\<close>: read through \<open>Next\<close> from state \<open>s\<close>, the stream hands out
  exactly the items \<open>xs\<close>, in order, and then reports exhaustion.
\<close>

fun delivers :: "('a, 's) SortedNumbersStream \<Rightarrow> 's \<Rightarrow> 'a list \<Rightarrow> bool" where
  "delivers Next s [] = (case Next s of None \<Rightarrow> False | Some (item, ok, s') \<Rightarrow> \<not> ok)"
| "delivers Next s (x # xs) =
     (case Next s of None \<Rightarrow> False | Some (item, ok, s') \<Rightarrow> ok \<and> item = x \<and> delivers Next s' xs)"

text \<open>
  \<open>pending emp i Next s L\<close>: \<open>L\<close> is what one side of \<open>iterate\<close> has still to process, the
  buffered head \<open>i\<close> (when the flag \<open>emp\<close> says there is one) followed by what the stream
  still delivers.
\<close>

definition pending :: "bool \<Rightarrow> 'a \<Rightarrow> ('a, 's) SortedNumbersStream \<Rightarrow> 's \<Rightarrow> 'a list \<Rightarrow> bool" where
  "pending emp i Next s L =
     (if emp then delivers Next s L
      else (case L of [] \<Rightarrow> False | x # t \<Rightarrow> x = i \<and> delivers Next s t))"

text \<open>
  \<open>before asc a b\<close>: in the declared direction, \<open>a\<close> comes strictly before \<open>b\<close>.
\<close>

definition before :: "bool \<Rightarrow> 'a::linorder \<Rightarrow> 'a \<Rightarrow> bool" where
  "before asc a b = (if asc then a < b else b < a)"

text \<open>The result stream after the items \<open>xs\<close> have been pushed to it.\<close>

definition pushed :: "'a ChannelStream \<Rightarrow> 'a list \<Rightarrow> 'a ChannelStream" where
  "pushed r xs = r\<lparr>pipe := (pipe r)\<lparr>buf := buf (pipe r) @ xs\<rparr>\<rparr>"

text \<open>The three presence shapes of a callback invocation: left-only, right-only, both.\<close>

definition one_presence_shape :: "'a option \<times> 'a option \<Rightarrow> bool" where
  "one_presence_shape c =
     (case c of (a, b) \<Rightarrow>
        (a \<noteq> None \<and> b = None) \<or> (a = None \<and> b \<noteq> None) \<or> (a \<noteq> None \<and> b \<noteq> None))"

section \<open>Properties\<close>

subsection \<open>The stream adapters\<close>

lemma SliceStream_Next_exhausted:
  "SliceStream_Next s = Some (item, False, s') \<Longrightarrow> item = 0 \<and> s' = s"
  by (simp add: SliceStream_Next_def split: if_splits)

lemma ChannelStream_Next_exhausted:
  "ChannelStream_Next c = Some (item, False, c') \<Longrightarrow> item = 0 \<and> c' = c"
  by (auto simp: ChannelStream_Next_def chan_recv_def split: list.splits if_splits)

lemma Next_times_exhausted:
  "Next s = Some (item, False, s) \<Longrightarrow> Next_times Next n s = Some s"
  by (induction n) simp_all

text \<open>
  C8. Once \<open>Next\<close> of a SliceStream or of a ChannelStream has returned \<open>ok = false\<close>, the
  call after any number \<open>n\<close> of further calls returns \<open>ok = false\<close> again (with the zero
  value, and the stream unchanged).
\<close>

theorem exhaustion_idempotent:
  "(SliceStream_Next s = Some (item, False, s') \<longrightarrow>
      Option.bind (Next_times SliceStream_Next n s') SliceStream_Next = Some (0, False, s')) \<and>
   (ChannelStream_Next c = Some (item', False, c') \<longrightarrow>
      Option.bind (Next_times ChannelStream_Next n c') ChannelStream_Next = Some (0, False, c'))"
proof (intro conjI impI)
  assume a: "SliceStream_Next s = Some (item, False, s')"
  then have "SliceStream_Next s' = Some (0, False, s')"
    using SliceStream_Next_exhausted by fastforce
  then show "Option.bind (Next_times SliceStream_Next n s') SliceStream_Next = Some (0, False, s')"
    by (simp add: Next_times_exhausted)
next
  assume a: "ChannelStream_Next c = Some (item', False, c')"
  then have "ChannelStream_Next c' = Some (0, False, c')"
    using ChannelStream_Next_exhausted by fastforce
  then show "Option.bind (Next_times ChannelStream_Next n c') ChannelStream_Next = Some (0, False, c')"
    by (simp add: Next_times_exhausted)
qed

theorem exhaustion_idempotent_witness:
  "SliceStream_Next \<lparr>slice = [1::int, 2], pos = 2\<rparr> = Some (0, False, \<lparr>slice = [1, 2], pos = 2\<rparr>) \<and>
   Option.bind (Next_times SliceStream_Next 5 \<lparr>slice = [1::int, 2], pos = 2\<rparr>) SliceStream_Next
     = Some (0, False, \<lparr>slice = [1, 2], pos = 2\<rparr>) \<and>
   ChannelStream_Next \<lparr>pipe = \<lparr>buf = [], closed = True\<rparr>\<rparr>
     = Some (0::int, False, \<lparr>pipe = \<lparr>buf = [], closed = True\<rparr>\<rparr>) \<and>
   Option.bind (Next_times ChannelStream_Next 5 \<lparr>pipe = \<lparr>buf = [], closed = True\<rparr>\<rparr>) ChannelStream_Next
     = Some (0::int, False, \<lparr>pipe = \<lparr>buf = [], closed = True\<rparr>\<rparr>)"
proof -
  have s: "SliceStream_Next \<lparr>slice = [1::int, 2], pos = 2\<rparr> = Some (0, False, \<lparr>slice = [1, 2], pos = 2\<rparr>)"
    by (simp add: SliceStream_Next_def)
  have c: "ChannelStream_Next \<lparr>pipe = \<lparr>buf = [], closed = True\<rparr>\<rparr>
     = Some (0::int, False, \<lparr>pipe = \<lparr>buf = [], closed = True\<rparr>\<rparr>)"
    by (simp add: ChannelStream_Next_def chan_recv_def)
  show ?thesis
    using s c
      exhaustion_idempotent [of "\<lparr>slice = [1::int, 2], pos = 2\<rparr>" 0 "\<lparr>slice = [1, 2], pos = 2\<rparr>" 5
        "\<lparr>pipe = \<lparr>buf = [], closed = True\<rparr>\<rparr>" "0::int" "\<lparr>pipe = \<lparr>buf = [], closed = True\<rparr>\<rparr>"]
    by simp
qed

text \<open>
  C10. On exhaustion \<open>Next\<close> returns the zero value of the element type: whenever
  \<open>SliceStream.Next\<close> or \<open>ChannelStream.Next\<close> returns \<open>ok = false\<close> the item is \<open>0\<close>;
  a SliceStream whose cursor is at or past the end of the slice returns \<open>(0, false)\<close>,
  and so does a ChannelStream that has just been closed with nothing left to receive.
\<close>

theorem exhausted_Next_zero_value:
  "(SliceStream_Next s = Some (item, False, s') \<longrightarrow> item = 0) \<and>
   (length (slice s) \<le> pos s \<longrightarrow> SliceStream_Next s = Some (0, False, s)) \<and>
   (ChannelStream_Next c = Some (item', False, c') \<longrightarrow> item' = 0) \<and>
   (buf (pipe c) = [] \<and> ChannelStream_Close c = Some c' \<longrightarrow>
      ChannelStream_Next c' = Some (0, False, c'))"
proof (intro conjI impI)
  assume "SliceStream_Next s = Some (item, False, s')"
  then show "item = 0" by (simp add: SliceStream_Next_def split: if_splits)
next
  assume "length (slice s) \<le> pos s"
  then show "SliceStream_Next s = Some (0, False, s)" by (simp add: SliceStream_Next_def)
next
  assume "ChannelStream_Next c = Some (item', False, c')"
  then show "item' = 0"
    by (auto simp: ChannelStream_Next_def chan_recv_def split: list.splits if_splits)
next
  assume "buf (pipe c) = [] \<and> ChannelStream_Close c = Some c'"
  then show "ChannelStream_Next c' = Some (0, False, c')"
    by (auto simp: ChannelStream_Next_def ChannelStream_Close_def chan_close_def chan_recv_def
        split: if_splits)
qed

theorem exhausted_Next_zero_value_witness:
  "SliceStream_Next \<lparr>slice = [7::int], pos = 1\<rparr> = Some (0, False, \<lparr>slice = [7], pos = 1\<rparr>) \<and>
   length (slice \<lparr>slice = [7::int], pos = 1\<rparr>) \<le> pos \<lparr>slice = [7::int], pos = 1\<rparr> \<and>
   buf (pipe (NewChannelStream :: int ChannelStream)) = [] \<and>
   ChannelStream_Close (NewChannelStream :: int ChannelStream)
     = Some \<lparr>pipe = \<lparr>buf = [], closed = True\<rparr>\<rparr> \<and>
   ChannelStream_Next \<lparr>pipe = \<lparr>buf = [], closed = True\<rparr>\<rparr>
     = Some (0::int, False, \<lparr>pipe = \<lparr>buf = [], closed = True\<rparr>\<rparr>)"
proof -
  have a: "length (slice \<lparr>slice = [7::int], pos = 1\<rparr>) \<le> pos \<lparr>slice = [7::int], pos = 1\<rparr>"
    by simp
  have b: "buf (pipe (NewChannelStream :: int ChannelStream)) = [] \<and>
     ChannelStream_Close (NewChannelStream :: int ChannelStream)
       = Some \<lparr>pipe = \<lparr>buf = [], closed = True\<rparr>\<rparr>"
    by (simp add: NewChannelStream_def make_chan_def ChannelStream_Close_def chan_close_def)
  show ?thesis
    using a b
      exhausted_Next_zero_value [of "\<lparr>slice = [7::int], pos = 1\<rparr>" 0 "\<lparr>slice = [7::int], pos = 1\<rparr>"
        "NewChannelStream :: int ChannelStream" 0 "\<lparr>pipe = \<lparr>buf = [], closed = True\<rparr>\<rparr>"]
    by simp
qed

subsection \<open>The drain loop of the right stream\<close>

text \<open>
  C1. Union of the ascending slices \<open>[1]\<close> and \<open>[2, 3]\<close>, read with ToSlice, is
  \<open>[1, 2, 3, 3]\<close>: the value 3 comes out twice, while the sorted sequence of the set
  union is \<open>[1, 2, 3]\<close>.
\<close>

theorem Union_asc_emits_twice:
  "ToSlice_result (Union SliceStream_Next SliceStream_Next
      (NewSliceStream [1::int]) (NewSliceStream [2, 3]) True) = Some [1, 2, 3, 3] \<and>
   sorted_list_of_set (set [1::int] \<union> set [2, 3]) = [1, 2, 3]"
  by code_simp

text \<open>
  C2. With a callback that records its calls and the stop policy of Union, \<open>iterate\<close> on
  \<open>[1]\<close> and \<open>[2, 3]\<close> finds the left stream exhausted while the right head 2 is
  buffered; the value 3, pulled once from the right stream, is passed to the callback
  twice.
\<close>

theorem iterate_drain_calls_twice:
  "iterate SliceStream_Next SliceStream_Next record_call Union_shouldStopDecision True
      (NewSliceStream [1::int]) (NewSliceStream [2, 3]) []
   = Some (\<lparr>slice = [1], pos = 1\<rparr>, \<lparr>slice = [2, 3], pos = 2\<rparr>,
           [(Some 1, None), (None, Some 2), (None, Some 3), (None, Some 3)])"
  by code_simp

text \<open>
  C5. Union on the reversed slices \<open>[1]\<close> and \<open>[3, 2]\<close>, descending, gives \<open>[3, 2, 1]\<close>,
  while the reverse of the ascending Union of \<open>[1]\<close> and \<open>[2, 3]\<close> is \<open>[3, 3, 2, 1]\<close>.
\<close>

theorem Union_direction_asymmetric:
  "ToSlice_result (Union SliceStream_Next SliceStream_Next
      (NewSliceStream (rev [1::int])) (NewSliceStream (rev [2, 3])) False) = Some [3, 2, 1] \<and>
   map_option rev (ToSlice_result (Union SliceStream_Next SliceStream_Next
      (NewSliceStream [1::int]) (NewSliceStream [2, 3]) True)) = Some [3, 3, 2, 1]"
  by code_simp

subsection \<open>What early termination leaves on the inputs\<close>

text \<open>
  C7. After \<open>Intersect([1,2,3], [1], asc)\<close> has produced \<open>[1]\<close>, the left input still holds
  exactly \<open>[3]\<close> (2 was pulled and dropped) and the right input nothing; after
  \<open>Diff([1], [1,2,3], asc)\<close> has produced \<open>[]\<close>, the right input still holds \<open>[2, 3]\<close>
  (and the left input nothing).
\<close>

theorem early_stop_residue:
  "TestEarlyFinish_observe (Intersect SliceStream_Next SliceStream_Next
      (NewSliceStream [1::int, 2, 3]) (NewSliceStream [1]) True) = Some ([1], [3], []) \<and>
   TestEarlyFinish_observe (Diff SliceStream_Next SliceStream_Next
      (NewSliceStream [1::int]) (NewSliceStream [1, 2, 3]) True) = Some ([], [], [2, 3])"
  by code_simp

subsection \<open>Streams as the sequences they deliver\<close>

lemma delivers_Nil_iff: "delivers Next s [] \<longleftrightarrow> (\<exists>item s'. Next s = Some (item, False, s'))"
  by (auto split: option.splits)

lemma delivers_Cons_iff:
  "delivers Next s (x # xs) \<longleftrightarrow> (\<exists>s'. Next s = Some (x, True, s') \<and> delivers Next s' xs)"
  by (auto split: option.splits)

declare delivers.simps [simp del]

lemma delivers_SliceStream: "delivers SliceStream_Next s (drop (pos s) (slice s))"
proof (induction "length (slice s) - pos s" arbitrary: s)
  case 0
  then show ?case by (simp add: SliceStream_Next_def delivers_Nil_iff)
next
  case (Suc n)
  then have lt: "pos s < length (slice s)" by simp
  have "n = length (slice (s\<lparr>pos := pos s + 1\<rparr>)) - pos (s\<lparr>pos := pos s + 1\<rparr>)"
    using Suc.hyps(2) by simp
  from Suc.hyps(1)[OF this] have "delivers SliceStream_Next (s\<lparr>pos := pos s + 1\<rparr>) (drop (Suc (pos s)) (slice s))"
    by simp
  moreover have "drop (pos s) (slice s) = slice s ! pos s # drop (Suc (pos s)) (slice s)"
    using lt by (simp add: Cons_nth_drop_Suc)
  ultimately show ?case using lt by (simp add: SliceStream_Next_def delivers_Cons_iff)
qed

lemma delivers_NewSliceStream: "delivers SliceStream_Next (NewSliceStream A) A"
  using delivers_SliceStream [of "NewSliceStream A"] by (simp add: NewSliceStream_def)

lemma delivers_ChannelStream:
  "closed (pipe c) \<Longrightarrow> buf (pipe c) = xs \<Longrightarrow> delivers ChannelStream_Next c xs"
  by (induction xs arbitrary: c) (simp_all add: ChannelStream_Next_def chan_recv_def delivers_Nil_iff delivers_Cons_iff)

lemma ToSlice_loop_delivers:
  "delivers Next s xs \<Longrightarrow> \<exists>s'. ToSlice_loop Next s ret = Some (ret @ xs, s')"
proof (induction xs arbitrary: s ret)
  case Nil
  then show ?case
    by (subst ToSlice_loop.simps) (auto simp: delivers_Nil_iff)
next
  case (Cons x xs)
  then obtain s' where n: "Next s = Some (x, True, s')" and d: "delivers Next s' xs"
    by (auto simp: delivers_Cons_iff)
  from Cons.IH [OF d, of "ret @ [x]"] show ?case
    by (subst ToSlice_loop.simps) (simp add: n)
qed

lemma pushed_Nil [simp]: "pushed r [] = r"
  by (simp add: pushed_def)

lemma pushed_pushed [simp]: "pushed (pushed r xs) ys = pushed r (xs @ ys)"
  by (simp add: pushed_def)

lemma closed_pushed [simp]: "closed (pipe (pushed r xs)) = closed (pipe r)"
  by (simp add: pushed_def)

lemma Push_open: "\<not> closed (pipe r) \<Longrightarrow> ChannelStream_Push r x = Some (pushed r [x])"
  by (simp add: ChannelStream_Push_def chan_send_def pushed_def)

lemma pending_True [simp]: "pending True i Next s L = delivers Next s L"
  by (simp add: pending_def)

lemma pending_False_Cons [simp]: "pending False i Next s (x # t) \<longleftrightarrow> x = i \<and> delivers Next s t"
  by (simp add: pending_def)

lemma pending_Nil: "pending emp i Next s [] \<Longrightarrow> emp \<and> (\<exists>item s'. Next s = Some (item, False, s'))"
  by (auto simp: pending_def delivers_Nil_iff split: if_splits)

lemma fill1_Cons:
  assumes "pending empty1 i1 Next1 stream1 (x # xs)"
  shows "\<exists>s. iterate_fill1 Next1 Next2 op stop i1 i2 empty1 empty2 stream1 stream2 res
            = Some (Inr (x, False, s)) \<and> delivers Next1 s xs"
  using assms by (cases empty1) (auto simp: iterate_fill1_def delivers_Cons_iff)

lemma fill2_Cons:
  assumes "pending empty2 i2 Next2 stream2 (y # ys)"
  shows "\<exists>s. iterate_fill2 Next1 Next2 op stop i1 i2 empty1 empty2 stream1 stream2 res
            = Some (Inr (y, False, s)) \<and> delivers Next2 s ys"
  using assms by (cases empty2) (auto simp: iterate_fill2_def delivers_Cons_iff)

lemma fill1_Nil_stop:
  assumes "pending empty1 i1 Next1 stream1 []" "stop True False"
  shows "\<exists>s. iterate_fill1 Next1 Next2 op stop i1 i2 empty1 empty2 stream1 stream2 res
            = Some (Inl (s, stream2, res))"
  using pending_Nil [OF assms(1)] assms(2) by (auto simp: iterate_fill1_def)

lemma fill2_Nil_stop:
  assumes "pending empty2 i2 Next2 stream2 []" "stop False True"
  shows "\<exists>s. iterate_fill2 Next1 Next2 op stop i1 i2 empty1 empty2 stream1 stream2 res
            = Some (Inl (stream1, s, res))"
  using pending_Nil [OF assms(1)] assms(2) by (auto simp: iterate_fill2_def)

lemma Diff_op_left:
  "\<not> closed (pipe r) \<Longrightarrow> Diff_unionOperation (Some x) None r = Some (pushed r [x])"
  by (simp add: Diff_unionOperation_def Push_open)

lemma Diff_op_right: "Diff_unionOperation a (Some y) r = Some r"
  by (simp add: Diff_unionOperation_def)

lemma Intersect_op_both:
  "\<not> closed (pipe r) \<Longrightarrow> Intersect_unionOperation (Some x) (Some y) r = Some (pushed r [x])"
  by (simp add: Intersect_unionOperation_def Push_open)

lemma Intersect_op_left: "Intersect_unionOperation a None r = Some r"
  by (simp add: Intersect_unionOperation_def)

lemma Intersect_op_right: "Intersect_unionOperation None b r = Some r"
  by (simp add: Intersect_unionOperation_def)

lemma Diff_drain1_empty:
  "delivers Next1 stream1 L \<Longrightarrow> \<not> closed (pipe res) \<Longrightarrow>
   \<exists>s. iterate_drain1 Next1 Diff_unionOperation i1 True stream1 res = Some (s, pushed res L)"
proof (induction L arbitrary: i1 stream1 res)
  case Nil
  then obtain item s' where "Next1 stream1 = Some (item, False, s')"
    by (auto simp: delivers_Nil_iff)
  then show ?case by (subst iterate_drain1.simps) simp
next
  case (Cons x xs)
  then obtain s' where n: "Next1 stream1 = Some (x, True, s')" and d: "delivers Next1 s' xs"
    by (auto simp: delivers_Cons_iff)
  have "\<not> closed (pipe (pushed res [x]))" using Cons.prems(2) by simp
  from Cons.IH [OF d this, of x] show ?case
    using Cons.prems(2)
    by (subst iterate_drain1.simps) (simp add: n Diff_op_left)
qed

lemma Diff_drain1:
  assumes "pending empty1 i1 Next1 stream1 L" "\<not> closed (pipe res)"
  shows "\<exists>s. iterate_drain1 Next1 Diff_unionOperation i1 empty1 stream1 res = Some (s, pushed res L)"
proof (cases empty1)
  case True
  then show ?thesis using assms Diff_drain1_empty by (metis pending_True)
next
  case False
  then obtain xs where L: "L = i1 # xs" and d: "delivers Next1 stream1 xs"
    using assms(1) by (cases L) (auto simp: pending_def)
  show ?thesis
  proof (cases xs)
    case Nil
    then obtain item s' where "Next1 stream1 = Some (item, False, s')"
      using d by (auto simp: delivers_Nil_iff)
    then show ?thesis using False L Nil assms(2)
      by (subst iterate_drain1.simps) (simp add: Diff_op_left)
  next
    case (Cons x t)
    then obtain s' where n: "Next1 stream1 = Some (x, True, s')" and d': "delivers Next1 s' t"
      using d by (auto simp: delivers_Cons_iff)
    have "\<not> closed (pipe (pushed res [i1, x]))" using assms(2) by simp
    from Diff_drain1_empty [OF d' this, of x] show ?thesis
      using False L Cons assms(2)
      by (subst iterate_drain1.simps) (simp add: n Diff_op_left)
  qed
qed

lemma fill2_Nil_Diff:
  assumes "pending empty2 i2 Next2 stream2 []" "pending empty1 i1 Next1 stream1 L"
    "\<not> closed (pipe res)"
  shows "\<exists>s t. iterate_fill2 Next1 Next2 Diff_unionOperation Diff_shouldStopDecision
                  i1 i2 empty1 empty2 stream1 stream2 res
            = Some (Inl (s, t, pushed res L))"
proof -
  from pending_Nil [OF assms(1)] obtain item s' where
    e: "empty2" and n: "Next2 stream2 = Some (item, False, s')" by auto
  from Diff_drain1 [OF assms(2,3)] obtain s where
    "iterate_drain1 Next1 Diff_unionOperation i1 empty1 stream1 res = Some (s, pushed res L)" ..
  then show ?thesis
    by (simp add: iterate_fill2_def e n Diff_shouldStopDecision_def)
qed

lemma loop_Inl:
  "iterate_body Next1 Next2 op stop asc vars = Some (Inl fin) \<Longrightarrow>
   iterate_loop Next1 Next2 op stop asc vars = Some fin"
  by (subst iterate_loop.simps) simp

lemma loop_Inr:
  "iterate_body Next1 Next2 op stop asc vars = Some (Inr vars') \<Longrightarrow>
   iterate_loop Next1 Next2 op stop asc vars = iterate_loop Next1 Next2 op stop asc vars'"
  by (subst iterate_loop.simps) simp

lemma body_Inl1:
  "iterate_fill1 Next1 Next2 op stop i1 i2 empty1 empty2 stream1 stream2 res = Some (Inl fin) \<Longrightarrow>
   iterate_body Next1 Next2 op stop asc (i1, i2, empty1, empty2, stream1, stream2, res)
     = Some (Inl fin)"
  by (simp add: iterate_body_def)

lemma body_Inl2:
  "iterate_fill1 Next1 Next2 op stop i1 i2 empty1 empty2 stream1 stream2 res
     = Some (Inr (x, e, s)) \<Longrightarrow>
   iterate_fill2 Next1 Next2 op stop x i2 e empty2 s stream2 res = Some (Inl fin) \<Longrightarrow>
   iterate_body Next1 Next2 op stop asc (i1, i2, empty1, empty2, stream1, stream2, res)
     = Some (Inl fin)"
  by (simp add: iterate_body_def)

lemma body_eq:
  "iterate_fill1 Next1 Next2 op stop i1 i2 empty1 empty2 stream1 stream2 res
     = Some (Inr (x, e, s)) \<Longrightarrow>
   iterate_fill2 Next1 Next2 op stop x i2 e empty2 s stream2 res = Some (Inr (y, e', t)) \<Longrightarrow>
   x = y \<Longrightarrow> op (Some x) (Some y) res = Some res' \<Longrightarrow>
   iterate_body Next1 Next2 op stop asc (i1, i2, empty1, empty2, stream1, stream2, res)
     = Some (Inr (x, y, True, True, s, t, res'))"
  by (simp add: iterate_body_def)

lemma before_True [simp]: "before True = (<)"
  by (simp add: fun_eq_iff before_def)

lemma before_False [simp]: "before False = (\<lambda>a b. b < a)"
  by (simp add: fun_eq_iff before_def)

lemma before_cases: "x = y \<or> before asc x y \<or> before asc y x"
  by (auto simp: before_def)

lemma before_notin:
  "sorted_wrt (before asc) (y # ys) \<Longrightarrow> before asc x y \<Longrightarrow> x \<notin> set (y # ys)"
  by (cases asc) auto

lemma before_head_notin: "sorted_wrt (before asc) (x # xs) \<Longrightarrow> x \<notin> set xs"
  by (cases asc) auto

lemma filter_in_drop: "y \<notin> set L \<Longrightarrow> filter (\<lambda>a. a \<in> set (y # ys)) L = filter (\<lambda>a. a \<in> set ys) L"
  by (intro filter_cong) auto

lemma filter_notin_drop: "y \<notin> set L \<Longrightarrow> filter (\<lambda>a. a \<notin> set (y # ys)) L = filter (\<lambda>a. a \<notin> set ys) L"
  by (intro filter_cong) auto

lemma filter_notin_same:
  "x \<notin> set xs \<Longrightarrow> filter (\<lambda>a. a \<notin> set (x # ys)) (x # xs) = filter (\<lambda>a. a \<notin> set ys) xs"
  using filter_notin_drop [of x xs ys] by simp

lemma filter_in_same:
  "x \<notin> set xs \<Longrightarrow> filter (\<lambda>a. a \<in> set (x # ys)) (x # xs) = x # filter (\<lambda>a. a \<in> set ys) xs"
  using filter_in_drop [of x xs ys] by simp

lemma body_first:
  "iterate_fill1 Next1 Next2 op stop i1 i2 empty1 empty2 stream1 stream2 res
     = Some (Inr (x, e, s)) \<Longrightarrow>
   iterate_fill2 Next1 Next2 op stop x i2 e empty2 s stream2 res = Some (Inr (y, e', t)) \<Longrightarrow>
   before asc x y \<Longrightarrow> op (Some x) None res = Some res' \<Longrightarrow>
   iterate_body Next1 Next2 op stop asc (i1, i2, empty1, empty2, stream1, stream2, res)
     = Some (Inr (x, y, True, e', s, t, res'))"
  by (auto simp: iterate_body_def before_def split: if_splits)

lemma body_second:
  "iterate_fill1 Next1 Next2 op stop i1 i2 empty1 empty2 stream1 stream2 res
     = Some (Inr (x, e, s)) \<Longrightarrow>
   iterate_fill2 Next1 Next2 op stop x i2 e empty2 s stream2 res = Some (Inr (y, e', t)) \<Longrightarrow>
   before asc y x \<Longrightarrow> op None (Some y) res = Some res' \<Longrightarrow>
   iterate_body Next1 Next2 op stop asc (i1, i2, empty1, empty2, stream1, stream2, res)
     = Some (Inr (x, y, e, True, s, t, res'))"
  by (auto simp: iterate_body_def before_def split: if_splits)

lemma Diff_loop:
  fixes L R :: "'a::linorder list"
  assumes "pending empty1 i1 Next1 stream1 L" "pending empty2 i2 Next2 stream2 R"
    "sorted_wrt (before asc) L" "sorted_wrt (before asc) R" "\<not> closed (pipe res)"
  shows "\<exists>s t. iterate_loop Next1 Next2 Diff_unionOperation Diff_shouldStopDecision asc
                 (i1, i2, empty1, empty2, stream1, stream2, res)
               = Some (s, t, pushed res (filter (\<lambda>a. a \<notin> set R) L))"
  using assms
proof (induction "length L + length R" arbitrary: L R empty1 empty2 i1 i2 stream1 stream2 res
    rule: less_induct)
  case less
  show ?case
  proof (cases L)
    case Nil
    have "\<exists>s. iterate_fill1 Next1 Next2 Diff_unionOperation Diff_shouldStopDecision
        i1 i2 empty1 empty2 stream1 stream2 res = Some (Inl (s, stream2, res))"
      using less.prems(1) Nil
      by (intro fill1_Nil_stop) (simp_all add: Diff_shouldStopDecision_def)
    then show ?thesis using Nil
      by (auto dest!: body_Inl1 [where asc = asc] loop_Inl)
  next
    case L: (Cons x xs)
    have "\<exists>s. iterate_fill1 Next1 Next2 Diff_unionOperation Diff_shouldStopDecision
        i1 i2 empty1 empty2 stream1 stream2 res = Some (Inr (x, False, s)) \<and> delivers Next1 s xs"
      using less.prems(1) L by (intro fill1_Cons) simp
    then obtain s1 where
      f1: "iterate_fill1 Next1 Next2 Diff_unionOperation Diff_shouldStopDecision
        i1 i2 empty1 empty2 stream1 stream2 res = Some (Inr (x, False, s1))"
      and d1: "delivers Next1 s1 xs" by blast
    have p1: "pending False x Next1 s1 L" using d1 L by simp
    show ?thesis
    proof (cases R)
      case Nil
      have "\<exists>s t. iterate_fill2 Next1 Next2 Diff_unionOperation Diff_shouldStopDecision
          x i2 False empty2 s1 stream2 res = Some (Inl (s, t, pushed res L))"
        using less.prems(2,5) Nil p1 by (intro fill2_Nil_Diff) simp_all
      then show ?thesis using Nil
        by (auto dest!: body_Inl2 [where asc = asc, OF f1] loop_Inl)
    next
      case R: (Cons y ys)
      have "\<exists>s. iterate_fill2 Next1 Next2 Diff_unionOperation Diff_shouldStopDecision
          x i2 False empty2 s1 stream2 res = Some (Inr (y, False, s)) \<and> delivers Next2 s ys"
        using less.prems(2) R by (intro fill2_Cons) simp
      then obtain s2 where
        f2: "iterate_fill2 Next1 Next2 Diff_unionOperation Diff_shouldStopDecision
          x i2 False empty2 s1 stream2 res = Some (Inr (y, False, s2))"
        and d2: "delivers Next2 s2 ys" by blast
      have p2: "pending False y Next2 s2 R" using d2 R by simp
      have sx: "sorted_wrt (before asc) xs" using less.prems(3) L by simp
      have sy: "sorted_wrt (before asc) ys" using less.prems(4) R by simp
      consider (eq) "x = y" | (first) "before asc x y" | (second) "before asc y x"
        using before_cases by blast
      then show ?thesis
      proof cases
        case eq
        have b: "iterate_body Next1 Next2 Diff_unionOperation Diff_shouldStopDecision asc
            (i1, i2, empty1, empty2, stream1, stream2, res)
            = Some (Inr (x, y, True, True, s1, s2, res))"
          by (rule body_eq [OF f1 f2 eq Diff_op_right])
        have "\<exists>s t. iterate_loop Next1 Next2 Diff_unionOperation Diff_shouldStopDecision asc
            (x, y, True, True, s1, s2, res) = Some (s, t, pushed res (filter (\<lambda>a. a \<notin> set ys) xs))"
          by (rule less.hyps) (use L R d1 d2 sx sy less.prems(5) in simp_all)
        moreover have "filter (\<lambda>a. a \<notin> set R) L = filter (\<lambda>a. a \<notin> set ys) xs"
          using filter_notin_same [OF before_head_notin [of asc x xs], of ys] less.prems(3) L R eq
          by simp
        ultimately show ?thesis
          by (simp add: loop_Inr [OF b])
      next
        case first
        have b: "iterate_body Next1 Next2 Diff_unionOperation Diff_shouldStopDecision asc
            (i1, i2, empty1, empty2, stream1, stream2, res)
            = Some (Inr (x, y, True, False, s1, s2, pushed res [x]))"
          by (rule body_first [OF f1 f2 first Diff_op_left [OF less.prems(5)]])
        have "\<exists>s t. iterate_loop Next1 Next2 Diff_unionOperation Diff_shouldStopDecision asc
            (x, y, True, False, s1, s2, pushed res [x])
            = Some (s, t, pushed (pushed res [x]) (filter (\<lambda>a. a \<notin> set R) xs))"
          by (rule less.hyps) (use L d1 p2 sx less.prems(4,5) in simp_all)
        moreover have "filter (\<lambda>a. a \<notin> set R) L = x # filter (\<lambda>a. a \<notin> set R) xs"
          using before_notin [of asc y ys x] less.prems(4) L R first by simp
        ultimately show ?thesis
          by (simp add: loop_Inr [OF b])
      next
        case second
        have b: "iterate_body Next1 Next2 Diff_unionOperation Diff_shouldStopDecision asc
            (i1, i2, empty1, empty2, stream1, stream2, res)
            = Some (Inr (x, y, False, True, s1, s2, res))"
          by (rule body_second [OF f1 f2 second Diff_op_right])
        have "\<exists>s t. iterate_loop Next1 Next2 Diff_unionOperation Diff_shouldStopDecision asc
            (x, y, False, True, s1, s2, res)
            = Some (s, t, pushed res (filter (\<lambda>a. a \<notin> set ys) L))"
          by (rule less.hyps) (use R p1 d2 sy less.prems(3,5) in simp_all)
        moreover have "filter (\<lambda>a. a \<notin> set R) L = filter (\<lambda>a. a \<notin> set ys) L"
        proof -
          have "y \<notin> set L" using before_notin [of asc x xs y] less.prems(3) L second by simp
          then show ?thesis unfolding R by (rule filter_notin_drop)
        qed
        ultimately show ?thesis
          by (simp add: loop_Inr [OF b])
      qed
    qed
  qed
qed

lemma Intersect_loop:
  fixes L R :: "'a::linorder list"
  assumes "pending empty1 i1 Next1 stream1 L" "pending empty2 i2 Next2 stream2 R"
    "sorted_wrt (before asc) L" "sorted_wrt (before asc) R" "\<not> closed (pipe res)"
  shows "\<exists>s t. iterate_loop Next1 Next2 Intersect_unionOperation Intersect_shouldStopDecision asc
                 (i1, i2, empty1, empty2, stream1, stream2, res)
               = Some (s, t, pushed res (filter (\<lambda>a. a \<in> set R) L))"
  using assms
proof (induction "length L + length R" arbitrary: L R empty1 empty2 i1 i2 stream1 stream2 res
    rule: less_induct)
  case less
  show ?case
  proof (cases L)
    case Nil
    have "\<exists>s. iterate_fill1 Next1 Next2 Intersect_unionOperation Intersect_shouldStopDecision
        i1 i2 empty1 empty2 stream1 stream2 res = Some (Inl (s, stream2, res))"
      using less.prems(1) Nil
      by (intro fill1_Nil_stop) (simp_all add: Intersect_shouldStopDecision_def)
    then show ?thesis using Nil
      by (auto dest!: body_Inl1 [where asc = asc] loop_Inl)
  next
    case L: (Cons x xs)
    have "\<exists>s. iterate_fill1 Next1 Next2 Intersect_unionOperation Intersect_shouldStopDecision
        i1 i2 empty1 empty2 stream1 stream2 res = Some (Inr (x, False, s)) \<and> delivers Next1 s xs"
      using less.prems(1) L by (intro fill1_Cons) simp
    then obtain s1 where
      f1: "iterate_fill1 Next1 Next2 Intersect_unionOperation Intersect_shouldStopDecision
        i1 i2 empty1 empty2 stream1 stream2 res = Some (Inr (x, False, s1))"
      and d1: "delivers Next1 s1 xs" by blast
    have p1: "pending False x Next1 s1 L" using d1 L by simp
    show ?thesis
    proof (cases R)
      case Nil
      have "\<exists>s. iterate_fill2 Next1 Next2 Intersect_unionOperation Intersect_shouldStopDecision
          x i2 False empty2 s1 stream2 res = Some (Inl (s1, s, res))"
        using less.prems(2) Nil
        by (intro fill2_Nil_stop) (simp_all add: Intersect_shouldStopDecision_def)
      then show ?thesis using Nil
        by (auto dest!: body_Inl2 [where asc = asc, OF f1] loop_Inl)
    next
      case R: (Cons y ys)
      have "\<exists>s. iterate_fill2 Next1 Next2 Intersect_unionOperation Intersect_shouldStopDecision
          x i2 False empty2 s1 stream2 res = Some (Inr (y, False, s)) \<and> delivers Next2 s ys"
        using less.prems(2) R by (intro fill2_Cons) simp
      then obtain s2 where
        f2: "iterate_fill2 Next1 Next2 Intersect_unionOperation Intersect_shouldStopDecision
          x i2 False empty2 s1 stream2 res = Some (Inr (y, False, s2))"
        and d2: "delivers Next2 s2 ys" by blast
      have p2: "pending False y Next2 s2 R" using d2 R by simp
      have sx: "sorted_wrt (before asc) xs" using less.prems(3) L by simp
      have sy: "sorted_wrt (before asc) ys" using less.prems(4) R by simp
      consider (eq) "x = y" | (first) "before asc x y" | (second) "before asc y x"
        using before_cases by blast
      then show ?thesis
      proof cases
        case eq
        have b: "iterate_body Next1 Next2 Intersect_unionOperation Intersect_shouldStopDecision asc
            (i1, i2, empty1, empty2, stream1, stream2, res)
            = Some (Inr (x, y, True, True, s1, s2, pushed res [x]))"
          by (rule body_eq [OF f1 f2 eq Intersect_op_both [OF less.prems(5)]])
        have "\<exists>s t. iterate_loop Next1 Next2 Intersect_unionOperation Intersect_shouldStopDecision asc
            (x, y, True, True, s1, s2, pushed res [x])
            = Some (s, t, pushed (pushed res [x]) (filter (\<lambda>a. a \<in> set ys) xs))"
          by (rule less.hyps) (use L R d1 d2 sx sy less.prems(5) in simp_all)
        moreover have "filter (\<lambda>a. a \<in> set R) L = x # filter (\<lambda>a. a \<in> set ys) xs"
          using filter_in_same [OF before_head_notin [of asc x xs], of ys] less.prems(3) L R eq
          by simp
        ultimately show ?thesis
          by (simp add: loop_Inr [OF b])
      next
        case first
        have b: "iterate_body Next1 Next2 Intersect_unionOperation Intersect_shouldStopDecision asc
            (i1, i2, empty1, empty2, stream1, stream2, res)
            = Some (Inr (x, y, True, False, s1, s2, res))"
          by (rule body_first [OF f1 f2 first Intersect_op_left])
        have "\<exists>s t. iterate_loop Next1 Next2 Intersect_unionOperation Intersect_shouldStopDecision asc
            (x, y, True, False, s1, s2, res)
            = Some (s, t, pushed res (filter (\<lambda>a. a \<in> set R) xs))"
          by (rule less.hyps) (use L d1 p2 sx less.prems(4,5) in simp_all)
        moreover have "filter (\<lambda>a. a \<in> set R) L = filter (\<lambda>a. a \<in> set R) xs"
          using before_notin [of asc y ys x] less.prems(4) L R first by simp
        ultimately show ?thesis
          by (simp add: loop_Inr [OF b])
      next
        case second
        have b: "iterate_body Next1 Next2 Intersect_unionOperation Intersect_shouldStopDecision asc
            (i1, i2, empty1, empty2, stream1, stream2, res)
            = Some (Inr (x, y, False, True, s1, s2, res))"
          by (rule body_second [OF f1 f2 second Intersect_op_right])
        have "\<exists>s t. iterate_loop Next1 Next2 Intersect_unionOperation Intersect_shouldStopDecision asc
            (x, y, False, True, s1, s2, res)
            = Some (s, t, pushed res (filter (\<lambda>a. a \<in> set ys) L))"
          by (rule less.hyps) (use R p1 d2 sy less.prems(3,5) in simp_all)
        moreover have "filter (\<lambda>a. a \<in> set R) L = filter (\<lambda>a. a \<in> set ys) L"
        proof -
          have "y \<notin> set L" using before_notin [of asc x xs y] less.prems(3) L second by simp
          then show ?thesis unfolding R by (rule filter_in_drop)
        qed
        ultimately show ?thesis
          by (simp add: loop_Inr [OF b])
      qed
    qed
  qed
qed

lemma strict_filter_in:
  fixes A :: "'a::linorder list"
  assumes "sorted A" "distinct A"
  shows "sorted_list_of_set (set A \<inter> set B) = filter (\<lambda>a. a \<in> set B) A"
proof -
  have "set (filter (\<lambda>a. a \<in> set B) A) = set A \<inter> set B" by auto
  moreover have "sorted (filter (\<lambda>a. a \<in> set B) A)" using assms(1) by (rule sorted_wrt_filter)
  moreover have "distinct (filter (\<lambda>a. a \<in> set B) A)" using assms(2) by simp
  ultimately show ?thesis
    by (metis sorted_list_of_set.idem_if_sorted_distinct)
qed

lemma strict_filter_notin:
  fixes A :: "'a::linorder list"
  assumes "sorted A" "distinct A"
  shows "sorted_list_of_set (set A - set B) = filter (\<lambda>a. a \<notin> set B) A"
proof -
  have "set (filter (\<lambda>a. a \<notin> set B) A) = set A - set B" by auto
  moreover have "sorted (filter (\<lambda>a. a \<notin> set B) A)" using assms(1) by (rule sorted_wrt_filter)
  moreover have "distinct (filter (\<lambda>a. a \<notin> set B) A)" using assms(2) by simp
  ultimately show ?thesis
    by (metis sorted_list_of_set.idem_if_sorted_distinct)
qed

lemma Close_pushed_New:
  "ChannelStream_Close (pushed NewChannelStream xs) = Some \<lparr>pipe = \<lparr>buf = xs, closed = True\<rparr>\<rparr>"
  by (simp add: ChannelStream_Close_def chan_close_def pushed_def NewChannelStream_def make_chan_def)

lemma ToSlice_result_closed:
  "ToSlice_result (Some (\<lparr>pipe = \<lparr>buf = xs, closed = True\<rparr>\<rparr>, s, t)) = Some xs"
proof -
  have "delivers ChannelStream_Next \<lparr>pipe = \<lparr>buf = xs, closed = True\<rparr>\<rparr> xs"
    by (rule delivers_ChannelStream) simp_all
  from ToSlice_loop_delivers [OF this, of "[]"] show ?thesis
    by (auto simp: ToSlice_result_def ToSlice_def)
qed

lemma Diff_delivers:
  fixes A B :: "'a::{linorder,zero} list"
  assumes "delivers Next1 stream1 A" "delivers Next2 stream2 B"
    "sorted_wrt (before asc) A" "sorted_wrt (before asc) B"
  shows "\<exists>s t. Diff Next1 Next2 stream1 stream2 asc
           = Some (\<lparr>pipe = \<lparr>buf = filter (\<lambda>a. a \<notin> set B) A, closed = True\<rparr>\<rparr>, s, t)"
proof -
  have "\<exists>s t. iterate_loop Next1 Next2 Diff_unionOperation Diff_shouldStopDecision asc
           (0, 0, True, True, stream1, stream2, NewChannelStream)
         = Some (s, t, pushed NewChannelStream (filter (\<lambda>a. a \<notin> set B) A))"
    by (rule Diff_loop) (use assms in \<open>simp_all add: NewChannelStream_def make_chan_def\<close>)
  then show ?thesis
    by (auto simp: Diff_def iterate_def Close_pushed_New)
qed

lemma Intersect_delivers:
  fixes A B :: "'a::{linorder,zero} list"
  assumes "delivers Next1 stream1 A" "delivers Next2 stream2 B"
    "sorted_wrt (before asc) A" "sorted_wrt (before asc) B"
  shows "\<exists>s t. Intersect Next1 Next2 stream1 stream2 asc
           = Some (\<lparr>pipe = \<lparr>buf = filter (\<lambda>a. a \<in> set B) A, closed = True\<rparr>\<rparr>, s, t)"
proof -
  have "\<exists>s t. iterate_loop Next1 Next2 Intersect_unionOperation Intersect_shouldStopDecision asc
           (0, 0, True, True, stream1, stream2, NewChannelStream)
         = Some (s, t, pushed NewChannelStream (filter (\<lambda>a. a \<in> set B) A))"
    by (rule Intersect_loop) (use assms in \<open>simp_all add: NewChannelStream_def make_chan_def\<close>)
  then show ?thesis
    by (auto simp: Intersect_def iterate_def Close_pushed_New)
qed

lemma sorted_wrt_before_asc: "sorted A \<Longrightarrow> distinct A \<Longrightarrow> sorted_wrt (before True) A"
  by (simp add: strict_sorted_iff)

lemma sorted_wrt_before_desc: "sorted A \<Longrightarrow> distinct A \<Longrightarrow> sorted_wrt (before False) (rev A)"
  by (simp add: sorted_wrt_rev strict_sorted_iff)

lemma Intersect_slices:
  fixes A B :: "'a::{linorder,zero} list"
  assumes "sorted_wrt (before asc) A" "sorted_wrt (before asc) B"
  shows "ToSlice_result (Intersect SliceStream_Next SliceStream_Next
            (NewSliceStream A) (NewSliceStream B) asc) = Some (filter (\<lambda>a. a \<in> set B) A)"
proof -
  have "\<exists>s t. Intersect SliceStream_Next SliceStream_Next (NewSliceStream A) (NewSliceStream B) asc
           = Some (\<lparr>pipe = \<lparr>buf = filter (\<lambda>a. a \<in> set B) A, closed = True\<rparr>\<rparr>, s, t)"
    using assms by (intro Intersect_delivers delivers_NewSliceStream)
  then show ?thesis by (auto simp: ToSlice_result_closed)
qed

lemma Diff_slices:
  fixes A B :: "'a::{linorder,zero} list"
  assumes "sorted_wrt (before asc) A" "sorted_wrt (before asc) B"
  shows "ToSlice_result (Diff SliceStream_Next SliceStream_Next
            (NewSliceStream A) (NewSliceStream B) asc) = Some (filter (\<lambda>a. a \<notin> set B) A)"
proof -
  have "\<exists>s t. Diff SliceStream_Next SliceStream_Next (NewSliceStream A) (NewSliceStream B) asc
           = Some (\<lparr>pipe = \<lparr>buf = filter (\<lambda>a. a \<notin> set B) A, closed = True\<rparr>\<rparr>, s, t)"
    using assms by (intro Diff_delivers delivers_NewSliceStream)
  then show ?thesis by (auto simp: ToSlice_result_closed)
qed

subsection \<open>Intersect, Diff and their composition\<close>

text \<open>
  C3. For ascending slices \<open>A\<close> and \<open>B\<close> without duplicates, \<open>ToSlice(Intersect(A, B, true))\<close>
  returns, and returns the ascending sorted sequence of the set \<open>A \<inter> B\<close>; an instance
  is \<open>Intersect([1,2,3], [1,2,3]) = [1,2,3]\<close>.
\<close>

theorem Intersect_asc_set_intersection:
  fixes A B :: "'a::{linorder,zero} list"
  assumes "sorted A" "distinct A" "sorted B" "distinct B"
  shows "ToSlice_result (Intersect SliceStream_Next SliceStream_Next
            (NewSliceStream A) (NewSliceStream B) True)
         = Some (sorted_list_of_set (set A \<inter> set B))"
proof -
  have "ToSlice_result (Intersect SliceStream_Next SliceStream_Next
            (NewSliceStream A) (NewSliceStream B) True) = Some (filter (\<lambda>a. a \<in> set B) A)"
    using assms by (intro Intersect_slices sorted_wrt_before_asc)
  then show ?thesis
    using assms by (simp add: strict_filter_in)
qed

theorem Intersect_asc_set_intersection_witness:
  "sorted [1::int, 2, 3] \<and> distinct [1::int, 2, 3] \<and>
   ToSlice_result (Intersect SliceStream_Next SliceStream_Next
      (NewSliceStream [1::int, 2, 3]) (NewSliceStream [1, 2, 3]) True) = Some [1, 2, 3]"
proof -
  have sd: "sorted [1::int, 2, 3]" "distinct [1::int, 2, 3]" by simp_all
  have e: "sorted_list_of_set (set [1::int, 2, 3] \<inter> set [1, 2, 3]) = [1, 2, 3]"
    by code_simp
  show ?thesis
    using sd e Intersect_asc_set_intersection [OF sd sd] by simp
qed

text \<open>
  C4. For ascending slices \<open>A\<close> and \<open>B\<close> without duplicates, \<open>ToSlice(Diff(A, B, true))\<close>
  returns, and returns the ascending sorted sequence of the set \<open>A - B\<close>; and
  \<open>Diff([1,2,3], [1])\<close> gives \<open>[2, 3]\<close> and leaves nothing to read on either input.
\<close>

theorem Diff_asc_set_difference:
  fixes A B :: "'a::{linorder,zero} list"
  shows "(sorted A \<and> distinct A \<and> sorted B \<and> distinct B \<longrightarrow>
            ToSlice_result (Diff SliceStream_Next SliceStream_Next
                (NewSliceStream A) (NewSliceStream B) True)
            = Some (sorted_list_of_set (set A - set B))) \<and>
         TestEarlyFinish_observe (Diff SliceStream_Next SliceStream_Next
            (NewSliceStream [1::int, 2, 3]) (NewSliceStream [1]) True) = Some ([2, 3], [], [])"
proof (intro conjI impI)
  assume a: "sorted A \<and> distinct A \<and> sorted B \<and> distinct B"
  then have "ToSlice_result (Diff SliceStream_Next SliceStream_Next
            (NewSliceStream A) (NewSliceStream B) True) = Some (filter (\<lambda>a. a \<notin> set B) A)"
    by (intro Diff_slices sorted_wrt_before_asc) simp_all
  then show "ToSlice_result (Diff SliceStream_Next SliceStream_Next
                (NewSliceStream A) (NewSliceStream B) True)
            = Some (sorted_list_of_set (set A - set B))"
    using a by (simp add: strict_filter_notin)
next
  show "TestEarlyFinish_observe (Diff SliceStream_Next SliceStream_Next
            (NewSliceStream [1::int, 2, 3]) (NewSliceStream [1]) True) = Some ([2, 3], [], [])"
    by code_simp
qed

theorem Diff_asc_set_difference_witness:
  "sorted [1::int, 2, 3] \<and> distinct [1::int, 2, 3] \<and> sorted [1::int] \<and> distinct [1::int] \<and>
   ToSlice_result (Diff SliceStream_Next SliceStream_Next
      (NewSliceStream [1::int, 2, 3]) (NewSliceStream [1]) True) = Some [2, 3]"
proof -
  have sd: "sorted [1::int, 2, 3] \<and> distinct [1::int, 2, 3] \<and> sorted [1::int] \<and> distinct [1::int]"
    by simp
  have e: "sorted_list_of_set (set [1::int, 2, 3] - set [1]) = [2, 3]"
    by code_simp
  show ?thesis
    using sd e Diff_asc_set_difference [of "[1::int, 2, 3]" "[1]"] by simp
qed

text \<open>
  C6. For ascending slices \<open>A\<close>, \<open>B\<close>, \<open>C\<close> without duplicates, the streamed pipeline
  \<open>Diff(Intersect(A, B, true), C, true)\<close> read with ToSlice returns what the eager
  operations give in the same order, which is the ascending sorted sequence of
  \<open>(A \<inter> B) - C\<close>; and the pipeline on \<open>[1,2,3]\<close>, \<open>[2,3]\<close>, \<open>[3]\<close> gives \<open>[2]\<close>.
\<close>

theorem composition_refines_eager:
  fixes A B C :: "'a::{linorder,zero} list"
  shows "(sorted A \<and> distinct A \<and> sorted B \<and> distinct B \<and> sorted C \<and> distinct C \<longrightarrow>
            TestComposition_result A B C = Some (eager_diff (eager_intersect A B) C) \<and>
            eager_diff (eager_intersect A B) C = sorted_list_of_set ((set A \<inter> set B) - set C)) \<and>
         TestComposition_result [1::int, 2, 3] [2, 3] [3] = Some [2]"
proof (intro conjI impI)
  assume a: "sorted A \<and> distinct A \<and> sorted B \<and> distinct B \<and> sorted C \<and> distinct C"
  define AB where "AB = filter (\<lambda>a. a \<in> set B) A"
  have sAB: "sorted AB" "distinct AB"
    using a by (simp_all add: AB_def sorted_wrt_filter)
  have eAB: "eager_intersect A B = AB"
    using a by (simp add: eager_intersect_def AB_def strict_filter_in)
  have eD: "eager_diff AB C = filter (\<lambda>a. a \<notin> set C) AB"
    using sAB by (simp add: eager_diff_def strict_filter_notin)
  have "\<exists>s t. Intersect SliceStream_Next SliceStream_Next (NewSliceStream A) (NewSliceStream B) True
           = Some (\<lparr>pipe = \<lparr>buf = AB, closed = True\<rparr>\<rparr>, s, t)"
    unfolding AB_def using a
    by (intro Intersect_delivers delivers_NewSliceStream sorted_wrt_before_asc) simp_all
  then obtain s t where
    i: "Intersect SliceStream_Next SliceStream_Next (NewSliceStream A) (NewSliceStream B) True
           = Some (\<lparr>pipe = \<lparr>buf = AB, closed = True\<rparr>\<rparr>, s, t)" by blast
  have "delivers ChannelStream_Next \<lparr>pipe = \<lparr>buf = AB, closed = True\<rparr>\<rparr> AB"
    by (rule delivers_ChannelStream) simp_all
  then have "\<exists>s t. Diff ChannelStream_Next SliceStream_Next \<lparr>pipe = \<lparr>buf = AB, closed = True\<rparr>\<rparr>
              (NewSliceStream C) True
           = Some (\<lparr>pipe = \<lparr>buf = filter (\<lambda>a. a \<notin> set C) AB, closed = True\<rparr>\<rparr>, s, t)"
    using a sAB by (intro Diff_delivers delivers_NewSliceStream sorted_wrt_before_asc) simp_all
  then show "TestComposition_result A B C = Some (eager_diff (eager_intersect A B) C)"
    by (auto simp: TestComposition_result_def i ToSlice_result_closed eAB eD)
  show "eager_diff (eager_intersect A B) C = sorted_list_of_set ((set A \<inter> set B) - set C)"
    by (simp add: eager_diff_def eager_intersect_def)
next
  show "TestComposition_result [1::int, 2, 3] [2, 3] [3] = Some [2]"
    by code_simp
qed

theorem composition_refines_eager_witness:
  "sorted [1::int, 2, 3] \<and> distinct [1::int, 2, 3] \<and> sorted [2::int, 3] \<and> distinct [2::int, 3] \<and>
   sorted [3::int] \<and> distinct [3::int] \<and>
   TestComposition_result [1::int, 2, 3] [2, 3] [3] = Some (eager_diff (eager_intersect [1, 2, 3] [2, 3]) [3]) \<and>
   eager_diff (eager_intersect [1::int, 2, 3] [2, 3]) [3] = [2]"
proof -
  have sd: "sorted [1::int, 2, 3] \<and> distinct [1::int, 2, 3] \<and> sorted [2::int, 3] \<and> distinct [2::int, 3] \<and>
      sorted [3::int] \<and> distinct [3::int]"
    by simp
  have e: "eager_diff (eager_intersect [1::int, 2, 3] [2, 3]) [3] = [2]"
    by code_simp
  show ?thesis
    using sd e composition_refines_eager [of "[1::int, 2, 3]" "[2, 3]" "[3]"] by simp
qed

text \<open>
  Intersect and Diff in the two directions: on the reversed slices with the flag set to
  descending, each gives the reverse of its ascending result.
\<close>

lemma Intersect_Diff_direction_symmetric:
  fixes A B :: "'a::{linorder,zero} list"
  assumes "sorted A" "distinct A" "sorted B" "distinct B"
  shows "ToSlice_result (Intersect SliceStream_Next SliceStream_Next
            (NewSliceStream (rev A)) (NewSliceStream (rev B)) False)
         = map_option rev (ToSlice_result (Intersect SliceStream_Next SliceStream_Next
            (NewSliceStream A) (NewSliceStream B) True))"
    and "ToSlice_result (Diff SliceStream_Next SliceStream_Next
            (NewSliceStream (rev A)) (NewSliceStream (rev B)) False)
         = map_option rev (ToSlice_result (Diff SliceStream_Next SliceStream_Next
            (NewSliceStream A) (NewSliceStream B) True))"
  using assms
  by (simp_all add: Intersect_slices Diff_slices sorted_wrt_before_asc
      sorted_wrt_before_desc rev_filter del: before_True before_False)

subsection \<open>The presence shapes of the callback invocations\<close>

lemma shape_simps [simp]:
  "one_presence_shape (Some x, None)" "one_presence_shape (None, Some y)"
  "one_presence_shape (Some x, Some y)" "\<not> one_presence_shape (None, None)"
  by (simp_all add: one_presence_shape_def)

lemma bind_shapes:
  "list_all one_presence_shape (calls_of m) \<Longrightarrow>
   (\<And>x c. list_all one_presence_shape c \<Longrightarrow> list_all one_presence_shape (calls_of (f x c))) \<Longrightarrow>
   list_all one_presence_shape (calls_of (outcome_bind m f))"
  by (cases m) (simp_all add: outcome_bind_def)

lemma invoke_shapes:
  "list_all one_presence_shape calls \<Longrightarrow> one_presence_shape (a, b) \<Longrightarrow>
   list_all one_presence_shape (calls_of (invoke op a b res calls))"
  by (simp add: invoke_def split: option.splits)

lemma pull_shapes:
  "list_all one_presence_shape calls \<Longrightarrow>
   list_all one_presence_shape (calls_of (pull Next stream calls))"
  by (simp add: pull_def split: option.splits)

lemma traced_drain2_shapes:
  "list_all one_presence_shape calls \<Longrightarrow>
   list_all one_presence_shape (calls_of (traced_drain2 n Next2 op i2 empty2 stream2 res calls))"
proof (induction n arbitrary: i2 stream2 res calls)
  case 0
  then show ?case by simp
next
  case (Suc n)
  then show ?case
    by (auto intro!: bind_shapes invoke_shapes pull_shapes split: prod.splits)
qed

lemma traced_drain1_shapes:
  "list_all one_presence_shape calls \<Longrightarrow>
   list_all one_presence_shape (calls_of (traced_drain1 n Next1 op i1 empty1 stream1 res calls))"
proof (induction n arbitrary: i1 empty1 stream1 res calls)
  case 0
  then show ?case by simp
next
  case (Suc n)
  then show ?case
    by (auto intro!: bind_shapes invoke_shapes pull_shapes split: prod.splits)
qed

lemma traced_fill1_shapes:
  "list_all one_presence_shape calls \<Longrightarrow>
   list_all one_presence_shape
     (calls_of (traced_fill1 n Next1 Next2 op stop i1 i2 empty1 empty2 stream1 stream2 res calls))"
  unfolding traced_fill1_def
  by (auto intro!: bind_shapes pull_shapes traced_drain2_shapes split: prod.splits)

lemma traced_fill2_shapes:
  "list_all one_presence_shape calls \<Longrightarrow>
   list_all one_presence_shape
     (calls_of (traced_fill2 n Next1 Next2 op stop i1 i2 empty1 empty2 stream1 stream2 res calls))"
  unfolding traced_fill2_def
  by (auto intro!: bind_shapes pull_shapes traced_drain1_shapes split: prod.splits)

lemma traced_body_shapes:
  "list_all one_presence_shape calls \<Longrightarrow>
   list_all one_presence_shape (calls_of (traced_body n Next1 Next2 op stop asc vars calls))"
  unfolding traced_body_def
  by (auto intro!: bind_shapes invoke_shapes traced_fill1_shapes traced_fill2_shapes
      split: prod.splits sum.splits)

lemma traced_loop_shapes:
  "list_all one_presence_shape calls \<Longrightarrow>
   list_all one_presence_shape (calls_of (traced_loop n Next1 Next2 op stop asc vars calls))"
proof (induction n arbitrary: vars calls)
  case 0
  then show ?case by simp
next
  case (Suc n)
  then show ?case
    by (auto intro!: bind_shapes traced_body_shapes split: sum.splits)
qed

lemma traced_iterate_shapes:
  "list_all one_presence_shape
     (calls_of (traced_iterate n Next1 Next2 op stop asc stream1 stream2 res))"
  by (simp add: traced_iterate_def traced_loop_shapes)

lemma outcome_bind_Returned:
  "outcome_bind m f = Returned y c \<longleftrightarrow> (\<exists>x c0. m = Returned x c0 \<and> f x c0 = Returned y c)"
  by (cases m) (simp_all add: outcome_bind_def)

lemma invoke_Returned:
  "invoke op a b res calls = Returned r c \<longleftrightarrow> op a b res = Some r \<and> c = calls @ [(a, b)]"
  by (auto simp: invoke_def split: option.splits)

lemma pull_Returned:
  "pull Next stream calls = Returned rd c \<longleftrightarrow> Next stream = Some rd \<and> c = calls"
  by (auto simp: pull_def split: option.splits)

lemma traced_drain2_sound:
  "traced_drain2 n Next2 op i2 empty2 stream2 res calls = Returned y calls' \<Longrightarrow>
   iterate_drain2 Next2 op i2 empty2 stream2 res = Some y"
proof (induction n arbitrary: i2 empty2 stream2 res calls y calls')
  case 0
  then show ?case by simp
next
  case (Suc n)
  from Suc.prems show ?case
    by (subst iterate_drain2.simps)
      (auto simp: outcome_bind_Returned invoke_Returned pull_Returned
        split: if_splits prod.splits dest: Suc.IH)
qed

lemma traced_drain1_sound:
  "traced_drain1 n Next1 op i1 empty1 stream1 res calls = Returned y calls' \<Longrightarrow>
   iterate_drain1 Next1 op i1 empty1 stream1 res = Some y"
proof (induction n arbitrary: i1 empty1 stream1 res calls y calls')
  case 0
  then show ?case by simp
next
  case (Suc n)
  from Suc.prems show ?case
    by (subst iterate_drain1.simps)
      (auto simp: outcome_bind_Returned invoke_Returned pull_Returned
        split: if_splits prod.splits dest: Suc.IH)
qed

lemma traced_fill1_sound:
  "traced_fill1 n Next1 Next2 op stop i1 i2 empty1 empty2 stream1 stream2 res calls
     = Returned y calls' \<Longrightarrow>
   iterate_fill1 Next1 Next2 op stop i1 i2 empty1 empty2 stream1 stream2 res = Some y"
  by (auto simp: traced_fill1_def iterate_fill1_def outcome_bind_Returned pull_Returned
      split: if_splits prod.splits dest: traced_drain2_sound)

lemma traced_fill2_sound:
  "traced_fill2 n Next1 Next2 op stop i1 i2 empty1 empty2 stream1 stream2 res calls
     = Returned y calls' \<Longrightarrow>
   iterate_fill2 Next1 Next2 op stop i1 i2 empty1 empty2 stream1 stream2 res = Some y"
  by (auto simp: traced_fill2_def iterate_fill2_def outcome_bind_Returned pull_Returned
      split: if_splits prod.splits dest: traced_drain1_sound)

lemma traced_body_sound:
  assumes "traced_body n Next1 Next2 op stop asc vars calls = Returned y calls'"
  shows "iterate_body Next1 Next2 op stop asc vars = Some y"
proof -
  obtain i1 i2 empty1 empty2 stream1 stream2 res where
    vars: "vars = (i1, i2, empty1, empty2, stream1, stream2, res)"
    by (cases vars)
  from assms obtain f1 c1 where
    t1: "traced_fill1 n Next1 Next2 op stop i1 i2 empty1 empty2 stream1 stream2 res calls
           = Returned f1 c1"
    and r1: "(case f1 of
            Inl fin \<Rightarrow> Returned (Inl fin) c1
          | Inr (i1, empty1, stream1) \<Rightarrow>
              outcome_bind
                (traced_fill2 n Next1 Next2 op stop i1 i2 empty1 empty2 stream1 stream2 res c1)
                (\<lambda>f2 calls2.
                   case f2 of
                     Inl fin \<Rightarrow> Returned (Inl fin) calls2
                   | Inr (i2, empty2, stream2) \<Rightarrow>
                       if i1 = i2 then
                         outcome_bind (invoke op (Some i1) (Some i2) res calls2)
                           (\<lambda>res' calls3.
                              Returned (Inr (i1, i2, True, True, stream1, stream2, res')) calls3)
                       else if asc \<and> i1 < i2 then
                         outcome_bind (invoke op (Some i1) None res calls2)
                           (\<lambda>res' calls3.
                              Returned (Inr (i1, i2, True, empty2, stream1, stream2, res')) calls3)
                       else if asc \<and> i1 > i2 then
                         outcome_bind (invoke op None (Some i2) res calls2)
                           (\<lambda>res' calls3.
                              Returned (Inr (i1, i2, empty1, True, stream1, stream2, res')) calls3)
                       else if \<not> asc \<and> i1 < i2 then
                         outcome_bind (invoke op None (Some i2) res calls2)
                           (\<lambda>res' calls3.
                              Returned (Inr (i1, i2, empty1, True, stream1, stream2, res')) calls3)
                       else if \<not> asc \<and> i1 > i2 then
                         outcome_bind (invoke op (Some i1) None res calls2)
                           (\<lambda>res' calls3.
                              Returned (Inr (i1, i2, True, empty2, stream1, stream2, res')) calls3)
                       else Returned (Inr (i1, i2, empty1, empty2, stream1, stream2, res)) calls2))
         = Returned y calls'"
    unfolding traced_body_def vars by (auto simp: outcome_bind_Returned)
  have s1: "iterate_fill1 Next1 Next2 op stop i1 i2 empty1 empty2 stream1 stream2 res = Some f1"
    using t1 by (rule traced_fill1_sound)
  show ?thesis
  proof (cases f1)
    case (Inl fin)
    then show ?thesis using r1 s1 by (simp add: iterate_body_def vars)
  next
    case (Inr h)
    obtain x e s where h: "h = (x, e, s)" by (cases h)
    from r1 Inr h obtain f2 c2 where
      t2: "traced_fill2 n Next1 Next2 op stop x i2 e empty2 s stream2 res c1 = Returned f2 c2"
      and r2: "(case f2 of
                     Inl fin \<Rightarrow> Returned (Inl fin) c2
                   | Inr (i2, empty2, stream2) \<Rightarrow>
                       if x = i2 then
                         outcome_bind (invoke op (Some x) (Some i2) res c2)
                           (\<lambda>res' calls3.
                              Returned (Inr (x, i2, True, True, s, stream2, res')) calls3)
                       else if asc \<and> x < i2 then
                         outcome_bind (invoke op (Some x) None res c2)
                           (\<lambda>res' calls3.
                              Returned (Inr (x, i2, True, empty2, s, stream2, res')) calls3)
                       else if asc \<and> x > i2 then
                         outcome_bind (invoke op None (Some i2) res c2)
                           (\<lambda>res' calls3.
                              Returned (Inr (x, i2, e, True, s, stream2, res')) calls3)
                       else if \<not> asc \<and> x < i2 then
                         outcome_bind (invoke op None (Some i2) res c2)
                           (\<lambda>res' calls3.
                              Returned (Inr (x, i2, e, True, s, stream2, res')) calls3)
                       else if \<not> asc \<and> x > i2 then
                         outcome_bind (invoke op (Some x) None res c2)
                           (\<lambda>res' calls3.
                              Returned (Inr (x, i2, True, empty2, s, stream2, res')) calls3)
                       else Returned (Inr (x, i2, e, empty2, s, stream2, res)) c2)
         = Returned y calls'"
      by (auto simp: outcome_bind_Returned)
    have s2: "iterate_fill2 Next1 Next2 op stop x i2 e empty2 s stream2 res = Some f2"
      using t2 by (rule traced_fill2_sound)
    show ?thesis
    proof (cases f2)
      case (Inl fin)
      then show ?thesis using r2 s1 s2 Inr h by (simp add: iterate_body_def vars)
    next
      case (Inr h2)
      obtain y2 e2 t where h2: "h2 = (y2, e2, t)" by (cases h2)
      show ?thesis
        using r2 s1 s2 \<open>f1 = Inr h\<close> h Inr h2
        by (auto simp: iterate_body_def vars outcome_bind_Returned invoke_Returned
            split: if_splits)
    qed
  qed
qed

lemma traced_loop_sound:
  "traced_loop n Next1 Next2 op stop asc vars calls = Returned y calls' \<Longrightarrow>
   iterate_loop Next1 Next2 op stop asc vars = Some y"
proof (induction n arbitrary: vars calls)
  case 0
  then show ?case by simp
next
  case (Suc n)
  from Suc.prems obtain b c0 where
    tb: "traced_body (Suc n) Next1 Next2 op stop asc vars calls = Returned b c0"
    and r: "(case b of Inl fin \<Rightarrow> Returned fin c0
             | Inr vars' \<Rightarrow> traced_loop n Next1 Next2 op stop asc vars' c0) = Returned y calls'"
    by (auto simp: outcome_bind_Returned)
  have sb: "iterate_body Next1 Next2 op stop asc vars = Some b"
    using tb by (rule traced_body_sound)
  show ?case
  proof (cases b)
    case (Inl fin)
    then show ?thesis using r sb by (subst iterate_loop.simps) simp
  next
    case (Inr vars')
    then have "iterate_loop Next1 Next2 op stop asc vars' = Some y"
      using r Suc.IH by simp
    then show ?thesis using Inr sb by (subst iterate_loop.simps) simp
  qed
qed

lemma traced_iterate_sound:
  "traced_iterate n Next1 Next2 op stop asc stream1 stream2 res = Returned fin calls \<Longrightarrow>
   iterate Next1 Next2 op stop asc stream1 stream2 res = Some fin"
  unfolding traced_iterate_def iterate_def by (rule traced_loop_sound)

lemma bind_mono_Returned:
  "outcome_bind m f = Returned y c \<Longrightarrow>
   (\<And>x c0. m = Returned x c0 \<Longrightarrow> m' = Returned x c0) \<Longrightarrow>
   (\<And>x c0. f x c0 = Returned y c \<Longrightarrow> f' x c0 = Returned y c) \<Longrightarrow>
   outcome_bind m' f' = Returned y c"
  by (auto simp: outcome_bind_Returned)

lemma traced_drain2_mono:
  "traced_drain2 n Next2 op i2 empty2 stream2 res calls = Returned y c \<Longrightarrow>
   traced_drain2 (n + k) Next2 op i2 empty2 stream2 res calls = Returned y c"
proof (induction n arbitrary: i2 empty2 stream2 res calls y c)
  case 0
  then show ?case by simp
next
  case (Suc n)
  from Suc.prems show ?case
    unfolding add_Suc traced_drain2.simps
  proof (rule bind_mono_Returned, goal_cases)
    case (1 res1 c1)
    then show ?case .
  next
    case (2 res1 c1)
    then show ?case
    proof (rule bind_mono_Returned, goal_cases)
      case (1 rd c2)
      then show ?case .
    next
      case (2 rd c2)
      obtain v ok s where rd: "rd = (v, ok, s)" by (cases rd)
      show ?case
      proof (cases ok)
        case True
        with 2 show ?thesis unfolding rd prod.case
          by (simp add: outcome_bind_Returned) (blast intro: Suc.IH)
      next
        case False
        with 2 show ?thesis unfolding rd prod.case by simp
      qed
    qed
  qed
qed

lemma traced_drain1_mono:
  "traced_drain1 n Next1 op i1 empty1 stream1 res calls = Returned y c \<Longrightarrow>
   traced_drain1 (n + k) Next1 op i1 empty1 stream1 res calls = Returned y c"
proof (induction n arbitrary: i1 empty1 stream1 res calls y c)
  case 0
  then show ?case by simp
next
  case (Suc n)
  from Suc.prems show ?case
    unfolding add_Suc traced_drain1.simps
  proof (rule bind_mono_Returned, goal_cases)
    case (1 res1 c1)
    then show ?case .
  next
    case (2 res1 c1)
    then show ?case
    proof (rule bind_mono_Returned, goal_cases)
      case (1 rd c2)
      then show ?case .
    next
      case (2 rd c2)
      obtain v ok s where rd: "rd = (v, ok, s)" by (cases rd)
      show ?case
      proof (cases ok)
        case True
        with 2 show ?thesis unfolding rd prod.case
          by (simp add: outcome_bind_Returned) (blast intro: Suc.IH)
      next
        case False
        with 2 show ?thesis unfolding rd prod.case by simp
      qed
    qed
  qed
qed

lemma traced_fill1_mono:
  "traced_fill1 n Next1 Next2 op stop i1 i2 empty1 empty2 stream1 stream2 res calls
     = Returned y c \<Longrightarrow>
   traced_fill1 (n + k) Next1 Next2 op stop i1 i2 empty1 empty2 stream1 stream2 res calls
     = Returned y c"
  unfolding traced_fill1_def
  apply (cases empty1; simp)
  apply (erule bind_mono_Returned, assumption)
  subgoal for rd c1
    apply (cases rd; simp split: if_splits)
    apply (erule bind_mono_Returned, erule traced_drain2_mono, assumption)
    done
  done

lemma traced_fill2_mono:
  "traced_fill2 n Next1 Next2 op stop i1 i2 empty1 empty2 stream1 stream2 res calls
     = Returned y c \<Longrightarrow>
   traced_fill2 (n + k) Next1 Next2 op stop i1 i2 empty1 empty2 stream1 stream2 res calls
     = Returned y c"
  unfolding traced_fill2_def
  apply (cases empty2; simp)
  apply (erule bind_mono_Returned, assumption)
  subgoal for rd c1
    apply (cases rd; simp split: if_splits)
    apply (erule bind_mono_Returned, erule traced_drain1_mono, assumption)
    done
  done

lemma traced_body_mono:
  assumes "traced_body n Next1 Next2 op stop asc vars calls = Returned y c"
  shows "traced_body (n + k) Next1 Next2 op stop asc vars calls = Returned y c"
proof -
  obtain i1 i2 empty1 empty2 stream1 stream2 res where
    vars: "vars = (i1, i2, empty1, empty2, stream1, stream2, res)"
    by (cases vars)
  show ?thesis
    using assms unfolding traced_body_def vars prod.case
  proof (rule bind_mono_Returned, goal_cases)
    case (1 f1 c1)
    then show ?case by (rule traced_fill1_mono)
  next
    case (2 f1 c1)
    show ?case
    proof (cases f1)
      case (Inl fin)
      with 2 show ?thesis by simp
    next
      case (Inr h)
      obtain x e s where h: "h = (x, e, s)" by (cases h)
      from 2 show ?thesis unfolding Inr h sum.case prod.case
        by (rule bind_mono_Returned) (erule traced_fill2_mono, assumption)
    qed
  qed
qed

lemma traced_loop_mono:
  "traced_loop n Next1 Next2 op stop asc vars calls = Returned y c \<Longrightarrow>
   traced_loop (n + k) Next1 Next2 op stop asc vars calls = Returned y c"
proof (induction n arbitrary: vars calls)
  case 0
  then show ?case by simp
next
  case (Suc n)
  from Suc.prems show ?case
    unfolding add_Suc traced_loop.simps
  proof (rule bind_mono_Returned, goal_cases)
    case (1 b c0)
    then show ?case using traced_body_mono [of "Suc n" _ _ _ _ _ _ _ _ _ k] by simp
  next
    case (2 b c0)
    then show ?case by (cases b) (simp_all add: Suc.IH)
  qed
qed

lemma traced_drain2_Suc_exhausted:
  "(if \<not> empty2 then op None (Some i2) res else Some res) = Some res1 \<Longrightarrow>
   Next2 stream2 = Some (v, False, s) \<Longrightarrow>
   \<exists>n calls'. traced_drain2 n Next2 op i2 empty2 stream2 res calls = Returned (s, res1) calls'"
  by (rule exI [of _ "Suc 0"])
    (auto simp: outcome_bind_def invoke_def pull_def split: if_splits)

lemma traced_drain2_Suc_more:
  assumes "(if \<not> empty2 then op None (Some i2) res else Some res) = Some res1"
    "Next2 stream2 = Some (v, True, s)" "op None (Some v) res1 = Some res2"
    "\<forall>calls. \<exists>n calls'. traced_drain2 n Next2 op v empty2 s res2 calls = Returned y calls'"
  shows "\<exists>n calls'. traced_drain2 n Next2 op i2 empty2 stream2 res calls = Returned y calls'"
proof -
  define c where "c = (if \<not> empty2 then calls @ [(None, Some i2)] else calls) @ [(None, Some v)]"
  from assms(4) obtain n calls' where
    "traced_drain2 n Next2 op v empty2 s res2 c = Returned y calls'" by blast
  then have "traced_drain2 (Suc n) Next2 op i2 empty2 stream2 res calls = Returned y calls'"
    using assms(1-3) by (auto simp: c_def outcome_bind_def invoke_def pull_def split: if_splits)
  then show ?thesis by blast
qed

lemma traced_drain2_complete:
  assumes "iterate_drain2 Next2 op i2 empty2 stream2 res = Some y"
  shows "\<exists>n calls'. traced_drain2 n Next2 op i2 empty2 stream2 res calls = Returned y calls'"
proof -
  have "\<forall>calls. \<exists>n calls'.
      traced_drain2 n Next2 op i2 empty2 stream2 res calls = Returned y calls'"
  proof (rule iterate_drain2.raw_induct
      [where P = "\<lambda>Next2 op i2 empty2 stream2 res y. \<forall>calls. \<exists>n calls'.
          traced_drain2 n Next2 op i2 empty2 stream2 res calls = Returned y calls'",
        OF _ assms], goal_cases)
    case (1 drain Next2 op i2 empty2 stream2 res y)
    from 1(2) show ?case
      apply (clarsimp simp: bind_eq_Some_conv)
      subgoal for calls res1 v ok s
        apply (cases ok)
         apply (clarsimp simp: bind_eq_Some_conv)
         apply (erule (2) traced_drain2_Suc_more)
         apply (erule 1(1))
        apply clarsimp
        apply (erule (1) traced_drain2_Suc_exhausted)
        done
      done
  qed
  then show ?thesis by blast
qed

lemma traced_drain1_Suc_exhausted:
  "(if \<not> empty1 then op (Some i1) None res else Some res) = Some res1 \<Longrightarrow>
   Next1 stream1 = Some (v, False, s) \<Longrightarrow>
   \<exists>n calls'. traced_drain1 n Next1 op i1 empty1 stream1 res calls = Returned (s, res1) calls'"
  by (rule exI [of _ "Suc 0"])
    (auto simp: outcome_bind_def invoke_def pull_def split: if_splits)

lemma traced_drain1_Suc_more:
  assumes "(if \<not> empty1 then op (Some i1) None res else Some res) = Some res1"
    "Next1 stream1 = Some (v, True, s)" "op (Some v) None res1 = Some res2"
    "\<forall>calls. \<exists>n calls'. traced_drain1 n Next1 op v True s res2 calls = Returned y calls'"
  shows "\<exists>n calls'. traced_drain1 n Next1 op i1 empty1 stream1 res calls = Returned y calls'"
proof -
  define c where "c = (if \<not> empty1 then calls @ [(Some i1, None)] else calls) @ [(Some v, None)]"
  from assms(4) obtain n calls' where
    "traced_drain1 n Next1 op v True s res2 c = Returned y calls'" by blast
  then have "traced_drain1 (Suc n) Next1 op i1 empty1 stream1 res calls = Returned y calls'"
    using assms(1-3) by (auto simp: c_def outcome_bind_def invoke_def pull_def split: if_splits)
  then show ?thesis by blast
qed

lemma traced_drain1_complete:
  assumes "iterate_drain1 Next1 op i1 empty1 stream1 res = Some y"
  shows "\<exists>n calls'. traced_drain1 n Next1 op i1 empty1 stream1 res calls = Returned y calls'"
proof -
  have "\<forall>calls. \<exists>n calls'.
      traced_drain1 n Next1 op i1 empty1 stream1 res calls = Returned y calls'"
  proof (rule iterate_drain1.raw_induct
      [where P = "\<lambda>Next1 op i1 empty1 stream1 res y. \<forall>calls. \<exists>n calls'.
          traced_drain1 n Next1 op i1 empty1 stream1 res calls = Returned y calls'",
        OF _ assms], goal_cases)
    case (1 drain Next1 op i1 empty1 stream1 res y)
    from 1(2) show ?case
      apply (clarsimp simp: bind_eq_Some_conv)
      subgoal for calls res1 v ok s
        apply (cases ok)
         apply (clarsimp simp: bind_eq_Some_conv)
         apply (erule (2) traced_drain1_Suc_more)
         apply (erule 1(1))
        apply clarsimp
        apply (erule (1) traced_drain1_Suc_exhausted)
        done
      done
  qed
  then show ?thesis by blast
qed

lemma traced_fill1_complete:
  assumes "iterate_fill1 Next1 Next2 op stop i1 i2 empty1 empty2 stream1 stream2 res = Some y"
  shows "\<exists>n calls'. traced_fill1 n Next1 Next2 op stop i1 i2 empty1 empty2 stream1 stream2 res calls
           = Returned y calls'"
proof (cases "empty1 \<and> \<not> stop True False \<and> (\<exists>v s. Next1 stream1 = Some (v, False, s))")
  case False
  then show ?thesis using assms
    by (auto simp: iterate_fill1_def traced_fill1_def bind_eq_Some_conv outcome_bind_def pull_def
        split: if_splits)
next
  case True
  then obtain v s where nx: "Next1 stream1 = Some (v, False, s)" by blast
  from assms True nx obtain dr where
    d: "iterate_drain2 Next2 op i2 empty2 stream2 res = Some dr"
    by (auto simp: iterate_fill1_def bind_eq_Some_conv)
  from traced_drain2_complete [OF d, of calls] obtain n calls' where
    "traced_drain2 n Next2 op i2 empty2 stream2 res calls = Returned dr calls'" by blast
  then have "traced_fill1 n Next1 Next2 op stop i1 i2 empty1 empty2 stream1 stream2 res calls
           = Returned y calls'"
    using assms True nx d
    by (auto simp: iterate_fill1_def traced_fill1_def outcome_bind_def pull_def split: prod.splits)
  then show ?thesis by blast
qed

lemma traced_fill2_complete:
  assumes "iterate_fill2 Next1 Next2 op stop i1 i2 empty1 empty2 stream1 stream2 res = Some y"
  shows "\<exists>n calls'. traced_fill2 n Next1 Next2 op stop i1 i2 empty1 empty2 stream1 stream2 res calls
           = Returned y calls'"
proof (cases "empty2 \<and> \<not> stop False True \<and> (\<exists>v s. Next2 stream2 = Some (v, False, s))")
  case False
  then show ?thesis using assms
    by (auto simp: iterate_fill2_def traced_fill2_def bind_eq_Some_conv outcome_bind_def pull_def
        split: if_splits)
next
  case True
  then obtain v s where nx: "Next2 stream2 = Some (v, False, s)" by blast
  from assms True nx obtain dr where
    d: "iterate_drain1 Next1 op i1 empty1 stream1 res = Some dr"
    by (auto simp: iterate_fill2_def bind_eq_Some_conv)
  from traced_drain1_complete [OF d, of calls] obtain n calls' where
    "traced_drain1 n Next1 op i1 empty1 stream1 res calls = Returned dr calls'" by blast
  then have "traced_fill2 n Next1 Next2 op stop i1 i2 empty1 empty2 stream1 stream2 res calls
           = Returned y calls'"
    using assms True nx d
    by (auto simp: iterate_fill2_def traced_fill2_def outcome_bind_def pull_def split: prod.splits)
  then show ?thesis by blast
qed

lemma traced_body_complete:
  assumes "iterate_body Next1 Next2 op stop asc vars = Some b"
  shows "\<exists>n calls'. traced_body n Next1 Next2 op stop asc vars calls = Returned b calls'"
proof -
  obtain i1 i2 empty1 empty2 stream1 stream2 res where
    vars: "vars = (i1, i2, empty1, empty2, stream1, stream2, res)"
    by (cases vars)
  from assms obtain f1 where
    s1: "iterate_fill1 Next1 Next2 op stop i1 i2 empty1 empty2 stream1 stream2 res = Some f1"
    by (auto simp: iterate_body_def vars bind_eq_Some_conv)
  from traced_fill1_complete [OF s1, of calls] obtain n1 c1 where
    t1: "traced_fill1 n1 Next1 Next2 op stop i1 i2 empty1 empty2 stream1 stream2 res calls
           = Returned f1 c1" by blast
  show ?thesis
  proof (cases f1)
    case (Inl fin)
    then have "traced_body n1 Next1 Next2 op stop asc vars calls = Returned b c1"
      using assms s1 t1 by (simp add: iterate_body_def traced_body_def vars outcome_bind_def)
    then show ?thesis by blast
  next
    case (Inr h)
    obtain x e s where h: "h = (x, e, s)" by (cases h)
    from assms s1 Inr h obtain f2 where
      s2: "iterate_fill2 Next1 Next2 op stop x i2 e empty2 s stream2 res = Some f2"
      by (auto simp: iterate_body_def vars bind_eq_Some_conv)
    from traced_fill2_complete [OF s2, of c1] obtain n2 c2 where
      t2: "traced_fill2 n2 Next1 Next2 op stop x i2 e empty2 s stream2 res c1 = Returned f2 c2"
      by blast
    have t1': "traced_fill1 (n1 + n2) Next1 Next2 op stop i1 i2 empty1 empty2 stream1 stream2 res calls
           = Returned (Inr (x, e, s)) c1"
      using traced_fill1_mono [OF t1, of n2] Inr h by simp
    have t2': "traced_fill2 (n1 + n2) Next1 Next2 op stop x i2 e empty2 s stream2 res c1
           = Returned f2 c2"
      using traced_fill2_mono [OF t2, of n1] by (simp add: add.commute)
    have "\<exists>calls'. traced_body (n1 + n2) Next1 Next2 op stop asc vars calls = Returned b calls'"
    proof (cases f2)
      case (Inl fin)
      then show ?thesis using assms s1 s2 t1' t2' \<open>f1 = Inr h\<close> h
        by (simp add: iterate_body_def traced_body_def vars outcome_bind_def)
    next
      case (Inr h2)
      obtain y2 e2 t where h2: "h2 = (y2, e2, t)" by (cases h2)
      show ?thesis using assms s1 s2 t1' t2' \<open>f1 = Inr h\<close> h Inr h2
        by (auto simp: iterate_body_def traced_body_def vars outcome_bind_def invoke_def
            bind_eq_Some_conv split: if_splits)
    qed
    then show ?thesis by blast
  qed
qed

lemma traced_loop_complete:
  assumes "iterate_loop Next1 Next2 op stop asc vars = Some y"
  shows "\<exists>n calls'. traced_loop n Next1 Next2 op stop asc vars calls = Returned y calls'"
proof -
  have "\<forall>calls. \<exists>n calls'. traced_loop n Next1 Next2 op stop asc vars calls = Returned y calls'"
  proof (rule iterate_loop.raw_induct
      [where P = "\<lambda>Next1 Next2 op stop asc vars y. \<forall>calls. \<exists>n calls'.
          traced_loop n Next1 Next2 op stop asc vars calls = Returned y calls'",
        OF _ assms], goal_cases)
    case (1 loop Next1 Next2 op stop asc vars y)
    from 1(2) obtain b where
      sb: "iterate_body Next1 Next2 op stop asc vars = Some b"
      by (auto simp: bind_eq_Some_conv)
    show ?case
    proof
      fix calls
      from traced_body_complete [OF sb, of calls] obtain n c0 where
        tb: "traced_body n Next1 Next2 op stop asc vars calls = Returned b c0" by blast
      show "\<exists>n calls'. traced_loop n Next1 Next2 op stop asc vars calls = Returned y calls'"
      proof (cases b)
        case (Inl fin)
        then have "y = fin" using 1(2) sb by simp
        moreover have "traced_body (Suc n) Next1 Next2 op stop asc vars calls = Returned b c0"
          using traced_body_mono [OF tb, of 1] by simp
        ultimately have "traced_loop (Suc n) Next1 Next2 op stop asc vars calls = Returned y c0"
          using Inl by (simp add: outcome_bind_def)
        then show ?thesis by blast
      next
        case (Inr vars')
        then have "loop Next1 Next2 op stop asc vars' = Some y" using 1(2) sb by simp
        from 1(1) [OF this] obtain m calls' where
          tl: "traced_loop m Next1 Next2 op stop asc vars' c0 = Returned y calls'" by blast
        have "traced_body (Suc (n + m)) Next1 Next2 op stop asc vars calls = Returned b c0"
          using traced_body_mono [OF tb, of "Suc m"] by simp
        moreover have "traced_loop (n + m) Next1 Next2 op stop asc vars' c0 = Returned y calls'"
          using traced_loop_mono [OF tl, of n] by (simp add: add.commute)
        ultimately have
          "traced_loop (Suc (n + m)) Next1 Next2 op stop asc vars calls = Returned y calls'"
          using Inr by (simp add: outcome_bind_def)
        then show ?thesis by blast
      qed
    qed
  qed
  then show ?thesis by blast
qed

lemma traced_iterate_complete:
  "iterate Next1 Next2 op stop asc stream1 stream2 res = Some fin \<Longrightarrow>
   \<exists>n calls. traced_iterate n Next1 Next2 op stop asc stream1 stream2 res = Returned fin calls"
  unfolding traced_iterate_def iterate_def by (rule traced_loop_complete)

lemma invoke_record_call:
  "invoke record_call a b res calls = Returned (res @ [(a, b)]) (calls @ [(a, b)])"
  by (simp add: invoke_def record_call_def)

lemma traced_drain2_seen:
  "traced_drain2 n Next2 record_call i2 empty2 stream2 res calls = Returned (s, res') calls' \<Longrightarrow>
   res = calls \<Longrightarrow> res' = calls'"
proof (induction n arbitrary: i2 empty2 stream2 res calls)
  case 0
  then show ?case by simp
next
  case (Suc n)
  from Suc.prems show ?case
    by (auto simp: outcome_bind_Returned invoke_record_call pull_Returned
        split: if_splits prod.splits dest: Suc.IH)
qed

lemma traced_drain1_seen:
  "traced_drain1 n Next1 record_call i1 empty1 stream1 res calls = Returned (s, res') calls' \<Longrightarrow>
   res = calls \<Longrightarrow> res' = calls'"
proof (induction n arbitrary: i1 empty1 stream1 res calls)
  case 0
  then show ?case by simp
next
  case (Suc n)
  from Suc.prems show ?case
    by (auto simp: outcome_bind_Returned invoke_record_call pull_Returned
        split: if_splits prod.splits dest: Suc.IH)
qed

lemma traced_fill1_seen:
  assumes "traced_fill1 n Next1 Next2 record_call stop i1 i2 empty1 empty2 stream1 stream2 res calls
     = Returned f calls'" "res = calls"
  shows "case f of Inl (s, t, res') \<Rightarrow> res' = calls' | Inr h \<Rightarrow> calls' = calls"
  using assms
  by (auto simp: traced_fill1_def outcome_bind_Returned pull_Returned
      split: if_splits prod.splits sum.splits dest: traced_drain2_seen)

lemma traced_fill2_seen:
  assumes "traced_fill2 n Next1 Next2 record_call stop i1 i2 empty1 empty2 stream1 stream2 res calls
     = Returned f calls'" "res = calls"
  shows "case f of Inl (s, t, res') \<Rightarrow> res' = calls' | Inr h \<Rightarrow> calls' = calls"
  using assms
  by (auto simp: traced_fill2_def outcome_bind_Returned pull_Returned
      split: if_splits prod.splits sum.splits dest: traced_drain1_seen)

lemma traced_body_seen:
  assumes "traced_body n Next1 Next2 record_call stop asc vars calls = Returned b calls'"
    "snd (snd (snd (snd (snd (snd vars))))) = calls"
  shows "case b of Inl (s, t, res') \<Rightarrow> res' = calls'
         | Inr vars' \<Rightarrow> snd (snd (snd (snd (snd (snd vars'))))) = calls'"
proof -
  obtain i1 i2 empty1 empty2 stream1 stream2 res where
    vars: "vars = (i1, i2, empty1, empty2, stream1, stream2, res)"
    by (cases vars)
  have res: "res = calls" using assms(2) vars by simp
  from assms(1) obtain f1 c1 where
    t1: "traced_fill1 n Next1 Next2 record_call stop i1 i2 empty1 empty2 stream1 stream2 res calls
           = Returned f1 c1"
    by (auto simp: traced_body_def vars outcome_bind_Returned)
  note k1 = traced_fill1_seen [OF t1 res]
  show ?thesis
  proof (cases f1)
    case (Inl fin)
    then show ?thesis using assms(1) t1 k1
      by (auto simp: traced_body_def vars outcome_bind_def)
  next
    case (Inr h)
    obtain x e s where h: "h = (x, e, s)" by (cases h)
    have c1: "c1 = calls" using k1 Inr by simp
    from assms(1) t1 Inr h obtain f2 c2 where
      t2: "traced_fill2 n Next1 Next2 record_call stop x i2 e empty2 s stream2 res c1
             = Returned f2 c2"
      by (auto simp: traced_body_def vars outcome_bind_Returned)
    note k2 = traced_fill2_seen [OF t2 res [folded c1]]
    show ?thesis
    proof (cases f2)
      case (Inl fin)
      then show ?thesis using assms(1) t1 t2 k2 \<open>f1 = Inr h\<close> h
        by (auto simp: traced_body_def vars outcome_bind_def)
    next
      case (Inr h2)
      obtain y2 e2 t where h2: "h2 = (y2, e2, t)" by (cases h2)
      have "c2 = calls" using k2 Inr c1 by simp
      then show ?thesis using assms(1) t1 t2 \<open>f1 = Inr h\<close> h Inr h2 res c1
        by (auto simp: traced_body_def vars outcome_bind_def invoke_record_call
            split: if_splits)
    qed
  qed
qed

lemma traced_loop_seen:
  "traced_loop n Next1 Next2 record_call stop asc vars calls = Returned (s, t, res') calls' \<Longrightarrow>
   snd (snd (snd (snd (snd (snd vars))))) = calls \<Longrightarrow> res' = calls'"
proof (induction n arbitrary: vars calls)
  case 0
  then show ?case by simp
next
  case (Suc n)
  from Suc.prems(1) obtain b c0 where
    tb: "traced_body (Suc n) Next1 Next2 record_call stop asc vars calls = Returned b c0"
    by (auto simp: outcome_bind_Returned)
  note k = traced_body_seen [OF tb Suc.prems(2)]
  show ?case
  proof (cases b)
    case (Inl fin)
    then show ?thesis using Suc.prems(1) tb k by (auto simp: outcome_bind_def)
  next
    case (Inr vars')
    then have "traced_loop n Next1 Next2 record_call stop asc vars' c0 = Returned (s, t, res') calls'"
      using Suc.prems(1) tb by (simp add: outcome_bind_def)
    then show ?thesis using Suc.IH k Inr by simp
  qed
qed

lemma traced_iterate_seen:
  "traced_iterate n Next1 Next2 record_call stop asc stream1 stream2 [] = Returned (s, t, seen) calls
   \<Longrightarrow> seen = calls"
  unfolding traced_iterate_def by (erule traced_loop_seen) simp

text \<open>
  C9. Whatever the two input streams, the direction flag, the stop policy and the combine
  callback, and however far the run has got (\<open>n\<close> trips of each loop; the run may have
  returned, or it may never return): every invocation of the callback that \<open>iterate\<close>
  has made has one of the three presence shapes (left-only, right-only, both), none has
  both arguments nil. The record of invocations is that of \<open>iterate\<close> itself: the recorded
  run returns exactly when \<open>iterate\<close> does, with the same result, and the record of a run
  that returns is what a callback that writes down its own arguments has seen.
\<close>

theorem iterate_presence_shapes:
  "list_all one_presence_shape
     (calls_of (traced_iterate n Next1 Next2 op stop asc stream1 stream2 res)) \<and>
   (traced_iterate n Next1 Next2 op stop asc stream1 stream2 res = Returned fin calls \<longrightarrow>
      iterate Next1 Next2 op stop asc stream1 stream2 res = Some fin) \<and>
   (iterate Next1 Next2 op stop asc stream1 stream2 res = Some fin \<longrightarrow>
      (\<exists>m calls. traced_iterate m Next1 Next2 op stop asc stream1 stream2 res = Returned fin calls)) \<and>
   (traced_iterate n Next1 Next2 record_call stop asc stream1 stream2 [] = Returned (s, t, seen) calls'
      \<longrightarrow> seen = calls')"
  using traced_iterate_shapes [of n Next1 Next2 op stop asc stream1 stream2 res]
    traced_iterate_sound [of n Next1 Next2 op stop asc stream1 stream2 res fin calls]
    traced_iterate_complete [of Next1 Next2 op stop asc stream1 stream2 res fin]
    traced_iterate_seen [of n Next1 Next2 stop asc stream1 stream2 s t seen calls']
  by blast

theorem iterate_presence_shapes_witness:
  "traced_iterate 4 SliceStream_Next SliceStream_Next Union_unionOperation
      Union_shouldStopDecision False
      (NewSliceStream [3::int, 1]) (NewSliceStream [3, 2]) NewChannelStream
   = Returned (\<lparr>slice = [3, 1], pos = 2\<rparr>, \<lparr>slice = [3, 2], pos = 2\<rparr>,
               \<lparr>pipe = \<lparr>buf = [3, 2, 1], closed = False\<rparr>\<rparr>)
       [(Some 3, Some 3), (None, Some 2), (Some 1, None)] \<and>
   list_all one_presence_shape [(Some (3::int), Some 3), (None, Some 2), (Some 1, None)] \<and>
   iterate SliceStream_Next SliceStream_Next Union_unionOperation
      Union_shouldStopDecision False
      (NewSliceStream [3::int, 1]) (NewSliceStream [3, 2]) NewChannelStream
   = Some (\<lparr>slice = [3, 1], pos = 2\<rparr>, \<lparr>slice = [3, 2], pos = 2\<rparr>,
           \<lparr>pipe = \<lparr>buf = [3, 2, 1], closed = False\<rparr>\<rparr>) \<and>
   traced_iterate 4 SliceStream_Next SliceStream_Next record_call
      Union_shouldStopDecision False
      (NewSliceStream [3::int, 1]) (NewSliceStream [3, 2]) []
   = Returned (\<lparr>slice = [3, 1], pos = 2\<rparr>, \<lparr>slice = [3, 2], pos = 2\<rparr>,
               [(Some 3, Some 3), (None, Some 2), (Some 1, None)])
       [(Some 3, Some 3), (None, Some 2), (Some 1, None)]"
proof -
  have h: "traced_iterate 4 SliceStream_Next SliceStream_Next Union_unionOperation
      Union_shouldStopDecision False
      (NewSliceStream [3::int, 1]) (NewSliceStream [3, 2]) NewChannelStream
   = Returned (\<lparr>slice = [3, 1], pos = 2\<rparr>, \<lparr>slice = [3, 2], pos = 2\<rparr>,
               \<lparr>pipe = \<lparr>buf = [3, 2, 1], closed = False\<rparr>\<rparr>)
       [(Some 3, Some 3), (None, Some 2), (Some 1, None)]"
    by code_simp
  have r: "traced_iterate 4 SliceStream_Next SliceStream_Next record_call
      Union_shouldStopDecision False
      (NewSliceStream [3::int, 1]) (NewSliceStream [3, 2]) []
   = Returned (\<lparr>slice = [3, 1], pos = 2\<rparr>, \<lparr>slice = [3, 2], pos = 2\<rparr>,
               [(Some 3, Some 3), (None, Some 2), (Some 1, None)])
       [(Some 3, Some 3), (None, Some 2), (Some 1, None)]"
    by code_simp
  show ?thesis
    using h r
      iterate_presence_shapes [of 4 SliceStream_Next SliceStream_Next Union_unionOperation
        Union_shouldStopDecision False "NewSliceStream [3::int, 1]" "NewSliceStream [3, 2]"
        NewChannelStream
        "(\<lparr>slice = [3, 1], pos = 2\<rparr>, \<lparr>slice = [3, 2], pos = 2\<rparr>,
          \<lparr>pipe = \<lparr>buf = [3, 2, 1], closed = False\<rparr>\<rparr>)"
        "[(Some 3, Some 3), (None, Some 2), (Some 1, None)]"
        "\<lparr>slice = [3, 1], pos = 2\<rparr>" "\<lparr>slice = [3, 2], pos = 2\<rparr>"
        "[(Some 3, Some 3), (None, Some 2), (Some 1, None)]"
        "[(Some 3, Some 3), (None, Some 2), (Some 1, None)]"]
    by simp
qed

text \<open>
  Three runs that do not return, with the invocations made before: the right input is an
  open channel that holds 5 and has no producer left, so the receive after it blocks;
  the callback pushes to a closed result stream and panics at its first invocation; both
  inputs are endless (the multiples of 2 and of 3), and three trips are made.
\<close>

lemma traced_iterate_blocked_receive:
  "traced_iterate 9 SliceStream_Next ChannelStream_Next Union_unionOperation
      Union_shouldStopDecision True (NewSliceStream [1::int, 2])
      \<lparr>pipe = \<lparr>buf = [5], closed = False\<rparr>\<rparr> NewChannelStream
    = Unfinished [(Some 1, None), (Some 2, None), (None, Some 5)]"
  by code_simp

lemma traced_iterate_callback_panics:
  "traced_iterate 9 SliceStream_Next SliceStream_Next Union_unionOperation
      Union_shouldStopDecision True (NewSliceStream [1::int, 2]) (NewSliceStream [2, 3])
      \<lparr>pipe = \<lparr>buf = [], closed = True\<rparr>\<rparr>
    = Unfinished [(Some 1, None)]"
  by code_simp

lemma traced_iterate_endless_streams:
  "traced_iterate 3 (\<lambda>k::int. Some (k, True, k + 2)) (\<lambda>k::int. Some (k, True, k + 3))
      record_call Union_shouldStopDecision True 0 0 []
    = Unfinished [(Some 0, Some 0), (Some 2, None), (None, Some 3)]"
  by code_simp

end
